theory Spec2Isabelle
  imports Complex_Main "HOL-Library.Word"
begin

unbundle bit_operations_syntax

section \<open>Data model\<close>

text \<open>
  The editor keeps one cycle of audio as a \<open>Waveform\<close> (a sample count and a
  \<open>Float32Array\<close> of that length) and its harmonic series as a \<open>FrequencySpectrum\<close>
  (a harmonic count and an array of amplitude/phase objects).

  JavaScript numbers are modelled as follows: counts, indices and timestamps are
  \<open>int\<close>; sample values, amplitudes and phases are \<open>real\<close>, that is, the arithmetic
  of the source is read as exact arithmetic (no rounding to 32 or 64 bits, no NaN).
  The bitwise operator \<open>&\<close> is the one place where the source leaves exact
  arithmetic: it works on the 32-bit two's complement image of its operands, which
  is written out with \<open>32 word\<close>.

  Exceptions are values of the type \<open>error\<close>: \<open>InvalidLength\<close> is the
  \<open>Error('Sample rate must be a power of 2')\<close> of the \<open>Waveform\<close> constructor,
  \<open>OutOfRange\<close> the \<open>Error('... out of bounds')\<close> of the indexed accessors,
  \<open>RangeError\<close> and \<open>TypeError\<close> the built-in exceptions of typed arrays and of
  property access on \<open>undefined\<close>.
\<close>

datatype error = InvalidLength | OutOfRange | RangeError | TypeError

record Waveform =
  sampleRate :: int
  samples :: "real list"

record Harmonic =
  amplitude :: real
  phase :: real

record SpectrumData =
  harmonicCount :: int
  harmonics :: "Harmonic list"

record FrequencySpectrum = SpectrumData +
  fundamentalFrequency :: real

text \<open>
  The object handed to the history: \<open>{waveform: {sampleRate, samples},
  spectrum: {harmonicCount, harmonics}}\<close>, to which \<open>cloneState\<close> adds
  \<open>timestamp\<close>. The caller's object has no timestamp (\<open>None\<close>).
\<close>

record State =
  waveform :: Waveform
  spectrum :: SpectrumData
  timestamp :: "int option"

section \<open>HistoryManager\<close>

record HistoryManager =
  maxHistory :: int
  history :: "State list"
  currentIndex :: int

definition HistoryManager_new :: "int \<Rightarrow> HistoryManager" where
  "HistoryManager_new maxHist = \<lparr>maxHistory = maxHist, history = [], currentIndex = - 1\<rparr>"

text \<open>
  \<open>cloneState\<close> builds a fresh object from the four data fields and stamps it with
  \<open>Date.now()\<close>, which is the parameter \<open>now\<close>. Values of HOL have no identity, so
  the copy of the sample buffer and of the harmonic objects is the value itself.
\<close>

definition cloneState :: "int \<Rightarrow> State \<Rightarrow> State" where
  "cloneState now state =
     \<lparr>waveform = \<lparr>sampleRate = sampleRate (waveform state),
                   samples = samples (waveform state)\<rparr>,
      spectrum = \<lparr>harmonicCount = harmonicCount (spectrum state),
                   harmonics = map (\<lambda>h. \<lparr>amplitude = amplitude h, phase = phase h\<rparr>)
                                   (harmonics (spectrum state))\<rparr>,
      timestamp = Some now\<rparr>"

text \<open>\<open>xs.slice(0, e)\<close>: a negative end counts from the back, and the result is
  cut at both ends of the array.\<close>

definition slice0 :: "'a list \<Rightarrow> int \<Rightarrow> 'a list" where
  "slice0 xs e = (if e < 0 then take (nat (int (length xs) + e)) xs else take (nat e) xs)"


definition push :: "HistoryManager \<Rightarrow> State \<Rightarrow> int \<Rightarrow> HistoryManager" where
  "push h state now =
     (let hist = slice0 (history h) (currentIndex h + 1) @ [cloneState now state]
      in if int (length hist) > maxHistory h
         then h\<lparr>history := tl hist\<rparr>
         else h\<lparr>history := hist, currentIndex := currentIndex h + 1\<rparr>)"






text \<open>Pushing a sequence of states, each with the time of its call.\<close>

fun pushAll :: "HistoryManager \<Rightarrow> (State \<times> int) list \<Rightarrow> HistoryManager" where
  "pushAll h [] = h"
| "pushAll h ((s, now) # rest) = pushAll (push h s now) rest"

text \<open>
  The cursor of a manager built by the constructor and changed only through
  \<open>push\<close>, \<open>undo\<close>, \<open>redo\<close> and \<open>clear\<close> stays between \<open>-1\<close> and the last entry.
\<close>

definition cursor_ok :: "HistoryManager \<Rightarrow> bool" where
  "cursor_ok h = (- 1 \<le> currentIndex h \<and> currentIndex h < int (length (history h)))"

text \<open>The snapshot stored by a push of the state \<open>fst p\<close> at the time \<open>snd p\<close>.\<close>

definition snapshot :: "State \<times> int \<Rightarrow> State" where
  "snapshot p = cloneState (snd p) (fst p)"

text \<open>The cursor is on the last entry and the history is within its bound: the
  state of a manager that has only been pushed to.\<close>

definition at_tail :: "HistoryManager \<Rightarrow> bool" where
  "at_tail h =
     (currentIndex h = int (length (history h)) - 1 \<and> length (history h) \<le> nat (maxHistory h))"

section \<open>Built-in operations of the language\<close>

text \<open>\<open>a & b\<close>: both operands are reduced to 32 bits, the result is read as a
  signed 32-bit integer.\<close>

definition js_bitand :: "int \<Rightarrow> int \<Rightarrow> int" where
  "js_bitand a b = sint ((word_of_int a :: 32 word) AND word_of_int b)"

text \<open>\<open>a % b\<close> on numbers: the remainder of the division truncated towards zero,
  so the result has the sign of \<open>a\<close>. (For \<open>b = 0\<close> the language gives NaN; no
  caller below divides by zero.)\<close>

definition js_trunc :: "real \<Rightarrow> int" where
  "js_trunc x = (if x < 0 then \<lceil>x\<rceil> else \<lfloor>x\<rfloor>)"

definition js_rem :: "real \<Rightarrow> real \<Rightarrow> real" where
  "js_rem a b = a - b * of_int (js_trunc (a / b))"

definition js_rem_int :: "int \<Rightarrow> int \<Rightarrow> int" where
  "js_rem_int a b = (if a < 0 then - ((- a) mod \<bar>b\<bar>) else a mod \<bar>b\<bar>)"

text \<open>\<open>Math.atan2(y, x)\<close> on exact numbers: the angle of the point \<open>(x, y)\<close>, between
  \<open>-\<pi>\<close> and \<open>\<pi>\<close>.\<close>

definition atan2 :: "real \<Rightarrow> real \<Rightarrow> real" where
  "atan2 y x =
     (if x > 0 then arctan (y / x)
      else if x < 0 then (if y \<ge> 0 then arctan (y / x) + pi else arctan (y / x) - pi)
      else if y > 0 then pi / 2
      else if y < 0 then - (pi / 2)
      else 0)"

text \<open>\<open>target.set(source)\<close> on typed arrays: the source is written over the start
  of the target; a source longer than the target is a \<open>RangeError\<close>.\<close>

definition typed_set :: "real list \<Rightarrow> real list \<Rightarrow> error + real list" where
  "typed_set target source =
     (if length source > length target then Inl RangeError
      else Inr (source @ drop (length source) target))"

text \<open>A loop whose body may throw: the first error ends it.\<close>

fun foldE :: "('a \<Rightarrow> 's \<Rightarrow> error + 's) \<Rightarrow> 'a list \<Rightarrow> 's \<Rightarrow> error + 's" where
  "foldE f [] s = Inr s"
| "foldE f (x # xs) s = (case f x s of Inl e \<Rightarrow> Inl e | Inr s' \<Rightarrow> foldE f xs s')"

section \<open>Waveform\<close>

definition isPowerOfTwo :: "int \<Rightarrow> bool" where
  "isPowerOfTwo n = (n > 0 \<and> js_bitand n (n - 1) = 0)"

text \<open>The constructor. The allocation \<open>new Float32Array(sampleRate)\<close> is taken to
  succeed for every length and gives a buffer of zeros, which \<open>fill(0)\<close> leaves as
  it is.\<close>

definition Waveform_new :: "int \<Rightarrow> error + Waveform" where
  "Waveform_new sr =
     (if \<not> isPowerOfTwo sr then Inl InvalidLength
      else Inr \<lparr>sampleRate = sr, samples = replicate (nat sr) 0\<rparr>)"

text \<open>
  Every \<open>Waveform\<close> object has a buffer of exactly \<open>sampleRate\<close> entries: the
  constructor allocates it so, and no method replaces the buffer or the count.
  The methods read \<open>samples[i]\<close> only for \<open>0 \<le> i < sampleRate\<close>, which is inside the
  buffer of such an object.
\<close>

definition Waveform_ok :: "Waveform \<Rightarrow> bool" where
  "Waveform_ok w = (isPowerOfTwo (sampleRate w) \<and> length (samples w) = nat (sampleRate w))"


definition setSample :: "Waveform \<Rightarrow> int \<Rightarrow> real \<Rightarrow> error + Waveform" where
  "setSample w index v =
     (if index < 0 \<or> index \<ge> sampleRate w then Inl OutOfRange
      else Inr (w\<lparr>samples := (samples w)[nat index := max (- 1) (min 1 v)]\<rparr>))"

text \<open>The body of the loop of \<open>smooth\<close> at index \<open>i\<close>.\<close>

definition smoothed_at :: "Waveform \<Rightarrow> real \<Rightarrow> nat \<Rightarrow> real" where
  "smoothed_at w amount i =
     (let n = sampleRate w;
          prev = samples w ! nat (js_rem_int (int i - 1 + n) n);
          curr = samples w ! i;
          next = samples w ! nat (js_rem_int (int i + 1) n)
      in curr * (1 - amount) + (prev + next) * 0.5 * amount)"

definition smooth :: "Waveform \<Rightarrow> real \<Rightarrow> error + Waveform" where
  "smooth w amount =
     (if amount \<le> 0 \<or> amount > 1 then Inr w
      else (let smoothed = map (smoothed_at w amount) [0..<nat (sampleRate w)]
            in case typed_set (samples w) smoothed of
                 Inl e \<Rightarrow> Inl e
               | Inr xs \<Rightarrow> Inr (w\<lparr>samples := xs\<rparr>)))"

text \<open>The first loop of \<open>normalize\<close>: the largest absolute sample value.\<close>

definition peak :: "Waveform \<Rightarrow> real" where
  "peak w = fold (\<lambda>i mx. max mx \<bar>samples w ! i\<bar>) [0..<nat (sampleRate w)] 0"

definition normalize_waveform :: "Waveform \<Rightarrow> Waveform" where
  "normalize_waveform w =
     (let mx = peak w
      in if mx > 0 \<and> mx \<noteq> 1
         then w\<lparr>samples := fold (\<lambda>i xs. xs[i := xs ! i / mx]) [0..<nat (sampleRate w)] (samples w)\<rparr>
         else w)"

definition clone :: "Waveform \<Rightarrow> error + Waveform" where
  "clone w =
     (case Waveform_new (sampleRate w) of
        Inl e \<Rightarrow> Inl e
      | Inr cloned \<Rightarrow>
          (case typed_set (samples cloned) (samples w) of
             Inl e \<Rightarrow> Inl e
           | Inr xs \<Rightarrow> Inr (cloned\<lparr>samples := xs\<rparr>)))"

section \<open>FrequencySpectrum\<close>

definition FrequencySpectrum_new :: "int \<Rightarrow> FrequencySpectrum" where
  "FrequencySpectrum_new hc =
     \<lparr>harmonicCount = hc,
      harmonics = replicate (nat hc) \<lparr>amplitude = 0, phase = 0\<rparr>,
      fundamentalFrequency = 440\<rparr>"

text \<open>As for waveforms: the array of harmonics has \<open>harmonicCount\<close> entries.\<close>

definition Spectrum_ok :: "FrequencySpectrum \<Rightarrow> bool" where
  "Spectrum_ok f = (length (harmonics f) = nat (harmonicCount f))"

definition getHarmonic :: "FrequencySpectrum \<Rightarrow> int \<Rightarrow> error + Harmonic" where
  "getHarmonic f index =
     (if index < 0 \<or> index \<ge> harmonicCount f then Inl OutOfRange
      else Inr (harmonics f ! nat index))"

definition setHarmonic :: "FrequencySpectrum \<Rightarrow> int \<Rightarrow> real \<Rightarrow> real \<Rightarrow> error + FrequencySpectrum" where
  "setHarmonic f index amp ph =
     (if index < 0 \<or> index \<ge> harmonicCount f then Inl OutOfRange
      else Inr (f\<lparr>harmonics := (harmonics f)[nat index :=
                    \<lparr>amplitude = max 0 (min 1 amp), phase = js_rem ph (pi * 2)\<rparr>]\<rparr>))"

definition clear_spectrum :: "FrequencySpectrum \<Rightarrow> FrequencySpectrum" where
  "clear_spectrum f =
     f\<lparr>harmonics := fold (\<lambda>i hs. hs[i := \<lparr>amplitude = 0, phase = 0\<rparr>])
                          [0..<nat (harmonicCount f)] (harmonics f)\<rparr>"

text \<open>The first loop of the spectrum's \<open>normalize\<close>: the sum of the amplitudes.\<close>

definition amplitude_sum :: "FrequencySpectrum \<Rightarrow> real" where
  "amplitude_sum f =
     fold (\<lambda>i s. s + amplitude (harmonics f ! i)) [0..<nat (harmonicCount f)] 0"

definition normalize_spectrum :: "FrequencySpectrum \<Rightarrow> FrequencySpectrum" where
  "normalize_spectrum f =
     (let s = amplitude_sum f
      in if s > 0 \<and> s \<noteq> 1
         then f\<lparr>harmonics := fold (\<lambda>i hs. hs[i := (hs ! i)\<lparr>amplitude := amplitude (hs ! i) / s\<rparr>])
                                   [0..<nat (harmonicCount f)] (harmonics f)\<rparr>
         else f)"

definition clone_spectrum :: "FrequencySpectrum \<Rightarrow> FrequencySpectrum" where
  "clone_spectrum f =
     (FrequencySpectrum_new (harmonicCount f))
       \<lparr>fundamentalFrequency := fundamentalFrequency f,
        harmonics := map (\<lambda>h. \<lparr>amplitude = amplitude h, phase = phase h\<rparr>) (harmonics f)\<rparr>"

section \<open>WaveformTransform\<close>

text \<open>The inner loop of \<open>toTimeDomain\<close>: the value of one output sample.\<close>

definition harmonicSum :: "FrequencySpectrum \<Rightarrow> int \<Rightarrow> nat \<Rightarrow> real" where
  "harmonicSum sp sr sample =
     fold (\<lambda>harmonic v.
             (let amp = amplitude (harmonics sp ! harmonic);
                  ph = phase (harmonics sp ! harmonic)
              in if amp > 0
                 then (let harmonicNum = real harmonic + 1;
                           angle = (2 * pi * harmonicNum * real sample) / real_of_int sr + ph
                       in v + amp * sin angle)
                 else v))
          [0..<nat (harmonicCount sp)] 0"

definition toTimeDomain :: "FrequencySpectrum \<Rightarrow> int \<Rightarrow> error + Waveform" where
  "toTimeDomain sp sr =
     (case Waveform_new sr of
        Inl e \<Rightarrow> Inl e
      | Inr w0 \<Rightarrow>
          (case foldE (\<lambda>sample w. setSample w (int sample) (harmonicSum sp sr sample))
                      [0..<nat sr] w0 of
             Inl e \<Rightarrow> Inl e
           | Inr w \<Rightarrow> Inr (normalize_waveform w)))"

text \<open>The inner loop of \<open>toFrequencyDomain\<close> for harmonic index \<open>k\<close>, divided by the
  sample count: the two accumulators are independent, so each is a fold of its
  own.\<close>

definition dft_real :: "Waveform \<Rightarrow> nat \<Rightarrow> real" where
  "dft_real w k =
     fold (\<lambda>n re. re + samples w ! n * cos ((- 2 * pi * (real k + 1) * real n) / real_of_int (sampleRate w)))
          [0..<nat (sampleRate w)] 0
     / real_of_int (sampleRate w)"

definition dft_imag :: "Waveform \<Rightarrow> nat \<Rightarrow> real" where
  "dft_imag w k =
     fold (\<lambda>n im. im + samples w ! n * sin ((- 2 * pi * (real k + 1) * real n) / real_of_int (sampleRate w)))
          [0..<nat (sampleRate w)] 0
     / real_of_int (sampleRate w)"

definition toFrequencyDomain :: "Waveform \<Rightarrow> int \<Rightarrow> error + FrequencySpectrum" where
  "toFrequencyDomain w hc =
     foldE (\<lambda>k sp.
              (let re = dft_real w k;
                   im = dft_imag w k;
                   amp = 2 * sqrt (re * re + im * im);
                   ph = atan2 im re
               in setHarmonic sp (int k) amp ph))
           [0..<nat hc] (FrequencySpectrum_new hc)"

subsection \<open>Objects and buffers\<close>

text \<open>
  \<open>applySmoothing\<close> is about which buffer is written, so for it the sample buffers
  live in a store: a buffer is addressed by its position in the list of all
  buffers allocated so far, and a \<open>Waveform\<close> object holds its count and the address
  of its buffer. Allocation appends to the store; the in-place \<open>set\<close> overwrites
  the buffer at its address.
\<close>

type_synonym store = "real list list"

record WaveformObj =
  obj_sampleRate :: int
  obj_samples :: nat

text \<open>The value of an object in a store.\<close>

definition deref :: "store \<Rightarrow> WaveformObj \<Rightarrow> Waveform" where
  "deref st obj = \<lparr>sampleRate = obj_sampleRate obj, samples = st ! obj_samples obj\<rparr>"

definition new_obj :: "store \<Rightarrow> int \<Rightarrow> error + (WaveformObj \<times> store)" where
  "new_obj st sr =
     (case Waveform_new sr of
        Inl e \<Rightarrow> Inl e
      | Inr w \<Rightarrow> Inr (\<lparr>obj_sampleRate = sr, obj_samples = length st\<rparr>, st @ [samples w]))"

definition clone_obj :: "store \<Rightarrow> WaveformObj \<Rightarrow> error + (WaveformObj \<times> store)" where
  "clone_obj st obj =
     (case new_obj st (obj_sampleRate obj) of
        Inl e \<Rightarrow> Inl e
      | Inr (cloned, st1) \<Rightarrow>
          (case typed_set (st1 ! obj_samples cloned) (st1 ! obj_samples obj) of
             Inl e \<Rightarrow> Inl e
           | Inr xs \<Rightarrow> Inr (cloned, st1[obj_samples cloned := xs])))"

definition smooth_obj :: "store \<Rightarrow> WaveformObj \<Rightarrow> real \<Rightarrow> error + store" where
  "smooth_obj st obj amount =
     (case smooth (deref st obj) amount of
        Inl e \<Rightarrow> Inl e
      | Inr w \<Rightarrow> Inr (st[obj_samples obj := samples w]))"

definition applySmoothing :: "store \<Rightarrow> WaveformObj \<Rightarrow> real \<Rightarrow> error + (WaveformObj \<times> store)" where
  "applySmoothing st obj amount =
     (case clone_obj st obj of
        Inl e \<Rightarrow> Inl e
      | Inr (smoothed, st1) \<Rightarrow>
          (case smooth_obj st1 smoothed amount of
             Inl e \<Rightarrow> Inl e
           | Inr st2 \<Rightarrow> Inr (smoothed, st2)))"

section \<open>The transforms as the specification words them\<close>

text \<open>The analysis sums of the specification:
  \<open>real = \<Sum>\<^sub>n samples[n]\<cdot>cos(-2\<pi>(k+1)n/N) / N\<close> and the same with \<open>sin\<close>.\<close>

definition spec_real :: "Waveform \<Rightarrow> nat \<Rightarrow> real" where
  "spec_real w k =
     (\<Sum>n = 0..<nat (sampleRate w).
        samples w ! n * cos (- 2 * pi * (real k + 1) * real n / real_of_int (sampleRate w)))
     / real_of_int (sampleRate w)"

definition spec_imag :: "Waveform \<Rightarrow> nat \<Rightarrow> real" where
  "spec_imag w k =
     (\<Sum>n = 0..<nat (sampleRate w).
        samples w ! n * sin (- 2 * pi * (real k + 1) * real n / real_of_int (sampleRate w)))
     / real_of_int (sampleRate w)"

text \<open>The synthesis of the specification: the raw sum at every sample index, not
  clamped, then peak normalization.\<close>

definition rawSynthesis :: "FrequencySpectrum \<Rightarrow> int \<Rightarrow> Waveform" where
  "rawSynthesis sp sr =
     \<lparr>sampleRate = sr, samples = map (harmonicSum sp sr) [0..<nat sr]\<rparr>"

definition spec_toTimeDomain :: "FrequencySpectrum \<Rightarrow> int \<Rightarrow> Waveform" where
  "spec_toTimeDomain sp sr = normalize_waveform (rawSynthesis sp sr)"

text \<open>A sample count is a power of two.\<close>

definition power_of_two :: "int \<Rightarrow> bool" where
  "power_of_two n = (\<exists>k. n = 2 ^ k)"


section \<open>Example inputs\<close>


section \<open>Properties of the HistoryManager\<close>

lemma cursor_ok_new: "cursor_ok (HistoryManager_new m)"
  by (simp add: cursor_ok_def HistoryManager_new_def)










lemma drop_append_le: "d \<le> length xs \<Longrightarrow> drop d xs @ ys = drop d (xs @ ys)"
  by simp

lemma push_tail_both:
  assumes "at_tail h"
  shows "history (push h s now) =
           drop (Suc (length (history h)) - nat (maxHistory h)) (history h @ [cloneState now s])
         \<and> at_tail (push h s now)"
proof -
  let ?hist = "history h @ [cloneState now s]"
  have sl: "slice0 (history h) (currentIndex h + 1) = history h"
    using assms by (simp add: at_tail_def slice0_def)
  have len: "length (history h) \<le> nat (maxHistory h)"
    using assms by (simp add: at_tail_def)
  show ?thesis
  proof (cases "int (length ?hist) > maxHistory h")
    case True
    then have eq: "length (history h) = nat (maxHistory h)" using len by simp
    have p: "push h s now = h\<lparr>history := tl ?hist\<rparr>"
      using True sl by (simp add: push_def Let_def)
    have "Suc (length (history h)) - nat (maxHistory h) = Suc 0"
      using eq by simp
    then have "drop (Suc (length (history h)) - nat (maxHistory h)) ?hist = tl ?hist"
      by (simp only: drop_Suc drop_0)
    moreover have "at_tail (push h s now)"
      using p assms by (simp add: at_tail_def)
    ultimately show ?thesis using p by simp
  next
    case False
    then have p: "push h s now = h\<lparr>history := ?hist, currentIndex := currentIndex h + 1\<rparr>"
      using sl by (simp add: push_def Let_def)
    from False have "Suc (length (history h)) - nat (maxHistory h) = 0" by simp
    then have "drop (Suc (length (history h)) - nat (maxHistory h)) ?hist = ?hist"
      by (simp only: drop_0)
    moreover have "at_tail (push h s now)"
      using p assms False by (simp add: at_tail_def)
    ultimately show ?thesis using p by simp
  qed
qed

lemma push_tail_history:
  assumes "at_tail h"
  shows "history (push h s now) =
           drop (Suc (length (history h)) - nat (maxHistory h)) (history h @ [cloneState now s])"
    and "at_tail (push h s now)" and "maxHistory (push h s now) = maxHistory h"
  using push_tail_both [OF assms] by (simp_all add: push_def Let_def)

lemma pushAll_tail:
  "at_tail h \<Longrightarrow>
     history (pushAll h ps) =
       drop (length (history h) + length ps - nat (maxHistory h)) (history h @ map snapshot ps)
     \<and> at_tail (pushAll h ps) \<and> maxHistory (pushAll h ps) = maxHistory h"
proof (induction ps arbitrary: h)
  case Nil
  then show ?case by (simp add: at_tail_def)
next
  case (Cons p ps)
  obtain s now where p: "p = (s, now)" by (cases p)
  let ?h1 = "push h s now"
  let ?hist = "history h @ [cloneState now s]"
  let ?M = "nat (maxHistory h)"
  let ?d = "Suc (length (history h)) - ?M"
  have h1: "history ?h1 = drop ?d ?hist"
    and t1: "at_tail ?h1" and m1: "maxHistory ?h1 = maxHistory h"
    using push_tail_history [OF Cons.prems] by simp_all
  have len: "length (history h) \<le> ?M"
    using Cons.prems by (simp add: at_tail_def)
  have d: "?d \<le> length ?hist" by simp
  have "history (pushAll ?h1 ps) =
          drop (length (drop ?d ?hist) + length ps - ?M) (drop ?d ?hist @ map snapshot ps)"
    using Cons.IH [OF t1] h1 m1 by simp
  also have "drop ?d ?hist @ map snapshot ps = drop ?d (?hist @ map snapshot ps)"
    using d by (rule drop_append_le)
  also have "drop (length (drop ?d ?hist) + length ps - ?M) (drop ?d (?hist @ map snapshot ps))
       = drop (length (drop ?d ?hist) + length ps - ?M + ?d) (?hist @ map snapshot ps)"
    by (simp only: drop_drop)
  also have "length (drop ?d ?hist) + length ps - ?M + ?d = length (history h) + length (p # ps) - ?M"
  proof -
    have "length (drop ?d ?hist) = Suc (length (history h)) - ?d"
      by simp
    moreover have "length (p # ps) = Suc (length ps)" by simp
    ultimately show ?thesis using len by arith
  qed
  also have "?hist @ map snapshot ps = history h @ map snapshot (p # ps)"
    using p by (simp add: snapshot_def)
  finally have "history (pushAll h (p # ps)) =
      drop (length (history h) + length (p # ps) - ?M) (history h @ map snapshot (p # ps))"
    using p by simp
  moreover have "at_tail (pushAll h (p # ps)) \<and> maxHistory (pushAll h (p # ps)) = maxHistory h"
    using Cons.IH [OF t1] m1 p by simp
  ultimately show ?case by simp
qed

lemma pushAll_new:
  "history (pushAll (HistoryManager_new m) ps) = drop (length ps - nat m) (map snapshot ps)"
  "currentIndex (pushAll (HistoryManager_new m) ps) = int (min (length ps) (nat m)) - 1"
proof -
  have t: "at_tail (HistoryManager_new m)" by (simp add: at_tail_def HistoryManager_new_def)
  from pushAll_tail [OF t, of ps]
  show "history (pushAll (HistoryManager_new m) ps) = drop (length ps - nat m) (map snapshot ps)"
    by (simp add: HistoryManager_new_def)
  from pushAll_tail [OF t, of ps]
  show "currentIndex (pushAll (HistoryManager_new m) ps) = int (min (length ps) (nat m)) - 1"
    by (auto simp add: HistoryManager_new_def at_tail_def)
qed





section \<open>Properties of the Waveform\<close>
lemma isPowerOfTwo_pos: "isPowerOfTwo n \<Longrightarrow> 0 < n"
  by (simp add: isPowerOfTwo_def)

lemma Waveform_ok_pos: "Waveform_ok w \<Longrightarrow> 0 < sampleRate w"
  by (simp add: Waveform_ok_def isPowerOfTwo_pos)

lemma Waveform_ok_length: "Waveform_ok w \<Longrightarrow> length (samples w) = nat (sampleRate w)"
  by (simp add: Waveform_ok_def)

lemma Waveform_ok_new: "Waveform_new n = Inr w \<Longrightarrow> Waveform_ok w"
  by (auto simp add: Waveform_new_def Waveform_ok_def split: if_splits)

lemma Waveform_ok_setSample: "Waveform_ok w \<Longrightarrow> setSample w i v = Inr w' \<Longrightarrow> Waveform_ok w'"
  by (auto simp add: setSample_def Waveform_ok_def split: if_splits)

lemma fold_index:
  "fold (\<lambda>i acc. g acc (xs ! i)) [0..<length xs] a = foldl g a xs"
proof (induction xs rule: rev_induct)
  case Nil
  show ?case by simp
next
  case (snoc x xs)
  have "fold (\<lambda>i acc. g acc ((xs @ [x]) ! i)) [0..<length xs] a
      = fold (\<lambda>i acc. g acc (xs ! i)) [0..<length xs] a"
    by (rule fold_cong) (simp_all add: nth_append)
  then show ?case using snoc.IH by simp
qed

lemma fold_update_prefix:
  "k \<le> length xs \<Longrightarrow>
     fold (\<lambda>i ys. ys[i := f (ys ! i)]) [0..<k] xs = map f (take k xs) @ drop k xs"
proof (induction k)
  case 0
  show ?case by simp
next
  case (Suc k)
  then have k: "k < length xs" by simp
  have "fold (\<lambda>i ys. ys[i := f (ys ! i)]) [0..<Suc k] xs
      = (map f (take k xs) @ drop k xs)[k := f ((map f (take k xs) @ drop k xs) ! k)]"
    using Suc by simp
  also have "(map f (take k xs) @ drop k xs) ! k = xs ! k"
    using k by (simp add: nth_append)
  also have "(map f (take k xs) @ drop k xs)[k := f (xs ! k)]
      = map f (take k xs) @ (drop k xs)[0 := f (xs ! k)]"
    using k by (simp add: list_update_append)
  also have "(drop k xs)[0 := f (xs ! k)] = f (xs ! k) # drop (Suc k) xs"
    using k by (simp add: Cons_nth_drop_Suc [symmetric])
  also have "map f (take k xs) @ f (xs ! k) # drop (Suc k) xs
      = map f (take (Suc k) xs) @ drop (Suc k) xs"
    using k by (simp add: take_Suc_conv_app_nth)
  finally show ?case .
qed

lemma fold_update_all:
  "fold (\<lambda>i ys. ys[i := f (ys ! i)]) [0..<length xs] xs = map f xs"
  using fold_update_prefix [of "length xs" xs f] by simp

lemma foldl_max_abs_ge:
  fixes xs :: "real list"
  shows "a \<le> foldl (\<lambda>mx x. max mx \<bar>x\<bar>) a xs
       \<and> (\<forall>x\<in>set xs. \<bar>x\<bar> \<le> foldl (\<lambda>mx x. max mx \<bar>x\<bar>) a xs)"
proof (induction xs arbitrary: a)
  case Nil
  show ?case by simp
next
  case (Cons y ys)
  from Cons.IH [of "max a \<bar>y\<bar>"]
  have 1: "max a \<bar>y\<bar> \<le> foldl (\<lambda>mx x. max mx \<bar>x\<bar>) (max a \<bar>y\<bar>) ys"
    and 2: "\<forall>x\<in>set ys. \<bar>x\<bar> \<le> foldl (\<lambda>mx x. max mx \<bar>x\<bar>) (max a \<bar>y\<bar>) ys"
    by blast+
  from 1 have "a \<le> foldl (\<lambda>mx x. max mx \<bar>x\<bar>) (max a \<bar>y\<bar>) ys"
    and "\<bar>y\<bar> \<le> foldl (\<lambda>mx x. max mx \<bar>x\<bar>) (max a \<bar>y\<bar>) ys"
    by linarith+
  then show ?case using 2 by simp
qed

lemma foldl_max_abs_in:
  fixes xs :: "real list"
  shows "foldl (\<lambda>mx x. max mx \<bar>x\<bar>) a xs \<in> insert a (abs ` set xs)"
proof (induction xs arbitrary: a)
  case Nil
  show ?case by simp
next
  case (Cons y ys)
  from Cons.IH [of "max a \<bar>y\<bar>"]
  have "foldl (\<lambda>mx x. max mx \<bar>x\<bar>) (max a \<bar>y\<bar>) ys = max a \<bar>y\<bar>
        \<or> foldl (\<lambda>mx x. max mx \<bar>x\<bar>) (max a \<bar>y\<bar>) ys \<in> abs ` set ys"
    by blast
  moreover have "max a \<bar>y\<bar> = a \<or> max a \<bar>y\<bar> = \<bar>y\<bar>"
    by (simp add: max_def)
  ultimately show ?case by auto
qed

lemma foldl_max_abs:
  fixes xs :: "real list"
  shows "foldl (\<lambda>mx x. max mx \<bar>x\<bar>) a xs = Max (insert a (abs ` set xs))"
proof (rule sym, rule Max_eqI)
  show "finite (insert a (abs ` set xs))" by simp
  show "foldl (\<lambda>mx x. max mx \<bar>x\<bar>) a xs \<in> insert a (abs ` set xs)"
    by (rule foldl_max_abs_in)
  fix y assume "y \<in> insert a (abs ` set xs)"
  then show "y \<le> foldl (\<lambda>mx x. max mx \<bar>x\<bar>) a xs"
    using foldl_max_abs_ge [of a xs] by auto
qed

lemma peak_Max: "Waveform_ok w \<Longrightarrow> peak w = Max (insert 0 (abs ` set (samples w)))"
  using fold_index [of "\<lambda>mx x. max mx \<bar>x\<bar>" "samples w" 0]
  by (simp add: peak_def Waveform_ok_def foldl_max_abs)

subsection \<open>Construction: the power-of-two test\<close>
lemma isPowerOfTwo_2: "isPowerOfTwo 2" by (simp add: isPowerOfTwo_def js_bitand_def)
lemma isPowerOfTwo_1: "isPowerOfTwo 1" by (simp add: isPowerOfTwo_def js_bitand_def)
lemma isPowerOfTwo_4: "isPowerOfTwo 4" by (simp add: isPowerOfTwo_def js_bitand_def)
lemma isPowerOfTwo_1024: "isPowerOfTwo 1024" by (simp add: isPowerOfTwo_def js_bitand_def)
lemma not_isPowerOfTwo_0: "\<not> isPowerOfTwo 0" by (simp add: isPowerOfTwo_def js_bitand_def)
lemma not_isPowerOfTwo_3: "\<not> isPowerOfTwo 3" by (simp add: isPowerOfTwo_def js_bitand_def)
lemma not_isPowerOfTwo_5: "\<not> isPowerOfTwo 5" by (simp add: isPowerOfTwo_def js_bitand_def)
lemma not_isPowerOfTwo_1000: "\<not> isPowerOfTwo 1000" by (simp add: isPowerOfTwo_def js_bitand_def)
lemma isPowerOfTwo_above_wrap: "isPowerOfTwo 4294967297" by (simp add: isPowerOfTwo_def js_bitand_def)

lemma not_power_of_two_above_wrap: "\<not> power_of_two 4294967297"
proof
  assume "power_of_two 4294967297"
  then obtain k where k: "(4294967297::int) = 2 ^ k" by (auto simp add: power_of_two_def)
  show False
  proof (cases k)
    case 0
    then show False using k by simp
  next
    case (Suc j)
    then have "even ((2::int) ^ k)" by simp
    moreover have "odd (4294967297::int)" by simp
    ultimately show False using k by simp
  qed
qed

lemma and_pred_zero_iff:
  fixes n :: int
  assumes "0 < n"
  shows "n AND (n - 1) = 0 \<longleftrightarrow> (\<exists>k. n = 2 ^ k)"
  using assms
proof (induction "nat n" arbitrary: n rule: less_induct)
  case less
  show ?case
  proof (cases "even n")
    case True
    then obtain q where q: "n = 2 * q" by (elim evenE)
    then have qpos: "0 < q" using less.prems by simp
    have qlt: "nat q < nat n" using q qpos by simp
    have d: "(2 * q - 1) div 2 = q - 1" by linarith
    have "n AND (n - 1) = 2 * (q AND (q - 1))"
      using q d by (simp add: and_rec [of "2 * q" "2 * q - 1"])
    then have "n AND (n - 1) = 0 \<longleftrightarrow> q AND (q - 1) = 0" by simp
    also have "\<dots> \<longleftrightarrow> (\<exists>k. q = 2 ^ k)" using less.hyps [OF qlt qpos] .
    also have "\<dots> \<longleftrightarrow> (\<exists>k. n = 2 ^ k)"
    proof
      assume "\<exists>k. q = 2 ^ k"
      then obtain k where "q = 2 ^ k" by blast
      then have "n = 2 ^ Suc k" using q by simp
      then show "\<exists>k. n = 2 ^ k" by blast
    next
      assume "\<exists>k. n = 2 ^ k"
      then obtain k where k: "n = 2 ^ k" by blast
      show "\<exists>k. q = 2 ^ k"
      proof (cases k)
        case 0
        then show ?thesis using k True by simp
      next
        case (Suc j)
        then have "q = 2 ^ j" using k q by simp
        then show ?thesis by blast
      qed
    qed
    finally show ?thesis .
  next
    case False
    then obtain q where q: "n = 2 * q + 1" by (elim oddE)
    then have qnn: "0 \<le> q" using less.prems by simp
    have "n AND (n - 1) = 2 * (q AND q)"
      using q by (simp add: and_rec [of "2 * q + 1" "2 * q"])
    then have "n AND (n - 1) = 0 \<longleftrightarrow> q = 0" by simp
    also have "\<dots> \<longleftrightarrow> n = 1" using q by simp
    also have "\<dots> \<longleftrightarrow> (\<exists>k. n = 2 ^ k)"
    proof
      assume "n = 1"
      then have "n = 2 ^ 0" by simp
      then show "\<exists>k. n = 2 ^ k" by blast
    next
      assume "\<exists>k. n = 2 ^ k"
      then obtain k where k: "n = 2 ^ k" by blast
      show "n = 1"
      proof (cases k)
        case 0
        then show ?thesis using k by simp
      next
        case (Suc j)
        then have "even n" using k by simp
        then show ?thesis using False by simp
      qed
    qed
    finally show ?thesis .
  qed
qed

lemma js_bitand_small:
  assumes "0 < n" "n < 2 ^ 32"
  shows "js_bitand n (n - 1) = 0 \<longleftrightarrow> n AND (n - 1) = 0"
proof -
  have nn: "0 \<le> n AND (n - 1)" using assms by simp
  have up: "n AND (n - 1) \<le> n" using assms by simp
  have "js_bitand n (n - 1) = 0 \<longleftrightarrow> (word_of_int (n AND (n - 1)) :: 32 word) = 0"
    by (simp add: js_bitand_def signed_eq_0_iff of_int_and_eq)
  also have "\<dots> \<longleftrightarrow> 2 ^ 32 dvd (n AND (n - 1))"
    by (simp add: word_of_int_eq_0_iff)
  also have "\<dots> \<longleftrightarrow> n AND (n - 1) = 0"
  proof
    assume d: "2 ^ 32 dvd (n AND (n - 1))"
    show "n AND (n - 1) = 0"
    proof (rule ccontr)
      assume "n AND (n - 1) \<noteq> 0"
      then have "0 < n AND (n - 1)" using nn by linarith
      then have "2 ^ 32 \<le> n AND (n - 1)" using d by (rule zdvd_imp_le [rotated])
      then show False using up assms by linarith
    qed
  next
    assume "n AND (n - 1) = 0"
    then show "2 ^ 32 dvd (n AND (n - 1))" by simp
  qed
  finally show ?thesis .
qed

lemma isPowerOfTwo_exact_below_wrap:
  assumes "n \<le> 2 ^ 32"
  shows "isPowerOfTwo n \<longleftrightarrow> power_of_two n"
proof (cases "0 < n")
  case False
  have "\<not> power_of_two n"
  proof
    assume "power_of_two n"
    then obtain k where "n = 2 ^ k" by (auto simp add: power_of_two_def)
    then have "0 < n" by simp
    then show False using False by simp
  qed
  then show ?thesis using False by (simp add: isPowerOfTwo_def)
next
  case True
  show ?thesis
  proof (cases "n = 2 ^ 32")
    case True
    have "isPowerOfTwo (2 ^ 32)" by (simp add: isPowerOfTwo_def js_bitand_def)
    moreover have "power_of_two (2 ^ 32)"
      unfolding power_of_two_def by (rule exI [of _ 32]) (rule refl)
    ultimately show ?thesis using True by simp
  next
    case False
    then have lt: "n < 2 ^ 32" using assms by simp
    show ?thesis
      using js_bitand_small [OF True lt] and_pred_zero_iff [OF True] True
      by (simp add: isPowerOfTwo_def power_of_two_def)
  qed
qed

text \<open>The sample counts named by the specification.\<close>

lemma Waveform_new_examples:
  "Waveform_new 0 = Inl InvalidLength \<and> Waveform_new 3 = Inl InvalidLength
   \<and> Waveform_new 5 = Inl InvalidLength \<and> Waveform_new 1000 = Inl InvalidLength
   \<and> Waveform_new 1 = Inr \<lparr>sampleRate = 1, samples = replicate 1 0\<rparr>
   \<and> Waveform_new 2 = Inr \<lparr>sampleRate = 2, samples = replicate 2 0\<rparr>
   \<and> Waveform_new 4 = Inr \<lparr>sampleRate = 4, samples = replicate 4 0\<rparr>
   \<and> Waveform_new 1024 = Inr \<lparr>sampleRate = 1024, samples = replicate 1024 0\<rparr>"
  using not_isPowerOfTwo_0 not_isPowerOfTwo_3 not_isPowerOfTwo_5 not_isPowerOfTwo_1000 isPowerOfTwo_1 isPowerOfTwo_2 isPowerOfTwo_4 isPowerOfTwo_1024 by (simp add: Waveform_new_def)

text \<open>
  Claim C6. The test \<open>n & (n - 1)\<close> sees only the low 32 bits of the sample count.
  For \<open>4294967297 = 2\<^sup>3\<^sup>2 + 1\<close>, which is not a power of two, \<open>isPowerOfTwo\<close> answers
  true and the constructor does not raise \<open>InvalidLength\<close>: it goes on to allocate
  the buffer.
\<close>

theorem isPowerOfTwo_wraps:
  "isPowerOfTwo 4294967297 \<and> \<not> power_of_two 4294967297
   \<and> Waveform_new 4294967297 = Inr \<lparr>sampleRate = 4294967297, samples = replicate 4294967297 0\<rparr>"
  using isPowerOfTwo_above_wrap not_power_of_two_above_wrap by (simp add: Waveform_new_def)


subsection \<open>Sample access\<close>


lemma upt2: "[0..<2] = [0, Suc 0]"
  by (simp add: upt_rec numeral_2_eq_2)

lemma Waveform_ok_zeros: "Waveform_ok \<lparr>sampleRate = 2, samples = [0, 0]\<rparr>"
  by (simp add: Waveform_ok_def isPowerOfTwo_2)



subsection \<open>Peak normalization\<close>

lemma normalize_map:
  assumes "Waveform_ok w"
  shows "normalize_waveform w =
           (if peak w > 0 \<and> peak w \<noteq> 1
            then w\<lparr>samples := map (\<lambda>x. x / peak w) (samples w)\<rparr> else w)"
proof -
  have "fold (\<lambda>i xs. xs[i := xs ! i / peak w]) [0..<nat (sampleRate w)] (samples w)
      = map (\<lambda>x. x / peak w) (samples w)"
    using fold_update_all [of "\<lambda>x. x / peak w" "samples w"] Waveform_ok_length [OF assms]
    by simp
  then show ?thesis by (simp add: normalize_waveform_def Let_def)
qed

lemma Waveform_ok_normalize: "Waveform_ok w \<Longrightarrow> Waveform_ok (normalize_waveform w)"
  by (simp add: normalize_map) (simp add: Waveform_ok_def)

lemma peak_nonneg: "Waveform_ok w \<Longrightarrow> 0 \<le> peak w"
  by (simp add: peak_Max)

lemma peak_zero_iff:
  assumes "Waveform_ok w"
  shows "peak w = 0 \<longleftrightarrow> (\<forall>x\<in>set (samples w). x = 0)"
proof
  assume z: "peak w = 0"
  show "\<forall>x\<in>set (samples w). x = 0"
  proof
    fix x assume "x \<in> set (samples w)"
    then have "\<bar>x\<bar> \<le> Max (insert 0 (abs ` set (samples w)))" by simp
    then show "x = 0" using z peak_Max [OF assms] by simp
  qed
next
  assume z: "\<forall>x\<in>set (samples w). x = 0"
  have "Max (insert 0 (abs ` set (samples w))) = 0"
  proof (rule Max_eqI)
    show "finite (insert 0 (abs ` set (samples w)))" by simp
    show "0 \<in> insert 0 (abs ` set (samples w))" by simp
    fix y assume "y \<in> insert 0 (abs ` set (samples w))"
    then show "y \<le> 0" using z by auto
  qed
  then show "peak w = 0" using peak_Max [OF assms] by simp
qed

lemma peak_attained:
  assumes "Waveform_ok w" "peak w > 0"
  shows "\<exists>x\<in>set (samples w). \<bar>x\<bar> = peak w"
proof -
  have "Max (insert 0 (abs ` set (samples w))) \<in> insert 0 (abs ` set (samples w))"
    by (rule Max_in) simp_all
  then show ?thesis using assms peak_Max [OF assms(1)] by auto
qed

lemma peak_bound: "Waveform_ok w \<Longrightarrow> x \<in> set (samples w) \<Longrightarrow> \<bar>x\<bar> \<le> peak w"
  by (simp add: peak_Max)

lemma peak_normalize:
  assumes ok: "Waveform_ok w" and nz: "\<exists>x\<in>set (samples w). x \<noteq> 0"
  shows "peak (normalize_waveform w) = 1"
proof -
  have pos: "peak w > 0"
    using peak_zero_iff [OF ok] peak_nonneg [OF ok] nz by fastforce
  show ?thesis
  proof (cases "peak w = 1")
    case True
    then show ?thesis using ok by (simp add: normalize_map)
  next
    case False
    let ?w' = "w\<lparr>samples := map (\<lambda>x. x / peak w) (samples w)\<rparr>"
    have n: "normalize_waveform w = ?w'" using pos False ok by (simp add: normalize_map)
    have ok': "Waveform_ok ?w'" using ok by (simp add: Waveform_ok_def)
    obtain x where x: "x \<in> set (samples w)" "\<bar>x\<bar> = peak w"
      using peak_attained [OF ok pos] by blast
    have "peak ?w' = Max (insert 0 (abs ` set (samples ?w')))"
      by (rule peak_Max [OF ok'])
    also have "\<dots> = 1"
    proof (rule Max_eqI)
      show "finite (insert 0 (abs ` set (samples ?w')))" by simp
      have e: "\<bar>x / peak w\<bar> = 1" using x pos by simp
      have s': "set (samples ?w') = (\<lambda>x. x / peak w) ` set (samples w)" by simp
      have "x / peak w \<in> set (samples ?w')"
        unfolding s' using x(1) by (rule imageI)
      then have "\<bar>x / peak w\<bar> \<in> abs ` set (samples ?w')"
        by (rule imageI)
      then have "1 \<in> abs ` set (samples ?w')"
        by (simp only: e)
      then show "1 \<in> insert 0 (abs ` set (samples ?w'))" by (rule insertI2)
      fix y assume "y \<in> insert 0 (abs ` set (samples ?w'))"
      then consider "y = 0" | z where "z \<in> set (samples w)" "y = \<bar>z / peak w\<bar>" by auto
      then show "y \<le> 1"
      proof cases
        case 1 then show ?thesis by simp
      next
        case 2
        then have "\<bar>z\<bar> \<le> peak w" using peak_bound [OF ok] by simp
        then show ?thesis using 2 pos by simp
      qed
    qed
    finally show ?thesis using n by simp
  qed
qed

lemma normalize_zero:
  assumes ok: "Waveform_ok w" and z: "\<forall>x\<in>set (samples w). x = 0"
  shows "normalize_waveform w = w"
  using peak_zero_iff [OF ok] z ok by (simp add: normalize_map)

text \<open>
  Claim C7. \<open>normalize\<close> computes the largest absolute sample value (\<open>peak\<close>); when
  it is neither 0 nor 1 every sample is divided by it, otherwise the waveform is
  left as it is. Afterwards the largest absolute sample is 1 whenever some sample
  was nonzero, and an all-zero waveform is returned unchanged.
\<close>

theorem normalize_unit_peak:
  assumes "Waveform_ok w"
  shows "peak w = Max (insert 0 (abs ` set (samples w)))
       \<and> normalize_waveform w =
           (if peak w \<noteq> 0 \<and> peak w \<noteq> 1
            then w\<lparr>samples := map (\<lambda>x. x / peak w) (samples w)\<rparr> else w)
       \<and> ((\<exists>x\<in>set (samples w). x \<noteq> 0) \<longrightarrow> peak (normalize_waveform w) = 1)
       \<and> ((\<forall>x\<in>set (samples w). x = 0) \<longrightarrow> normalize_waveform w = w)"
proof -
  have "peak w > 0 \<longleftrightarrow> peak w \<noteq> 0" using peak_nonneg [OF assms] by linarith
  then have "normalize_waveform w =
           (if peak w \<noteq> 0 \<and> peak w \<noteq> 1
            then w\<lparr>samples := map (\<lambda>x. x / peak w) (samples w)\<rparr> else w)"
    using normalize_map [OF assms] by simp
  then show ?thesis
    using peak_Max [OF assms] peak_normalize [OF assms] normalize_zero [OF assms] by blast
qed

lemma Waveform_ok_quiet: "Waveform_ok \<lparr>sampleRate = 2, samples = [1 / 2, - (1 / 4)]\<rparr>"
  by (simp add: Waveform_ok_def isPowerOfTwo_2)

text \<open>The waveform \<open>[1/2, -1/4]\<close> is scaled to \<open>[1, -1/2]\<close>; two zeros stay.\<close>

theorem normalize_unit_peak_witness:
  "Waveform_ok \<lparr>sampleRate = 2, samples = [1 / 2, - (1 / 4)]\<rparr>
   \<and> peak \<lparr>sampleRate = 2, samples = [1 / 2, - (1 / 4)]\<rparr> = 1 / 2
   \<and> normalize_waveform \<lparr>sampleRate = 2, samples = [1 / 2, - (1 / 4)]\<rparr>
        = \<lparr>sampleRate = 2, samples = [1, - (1 / 2)]\<rparr>
   \<and> peak (normalize_waveform \<lparr>sampleRate = 2, samples = [1 / 2, - (1 / 4)]\<rparr>) = 1
   \<and> normalize_waveform \<lparr>sampleRate = 2, samples = [0, 0]\<rparr> = \<lparr>sampleRate = 2, samples = [0, 0]\<rparr>"
proof -
  let ?w = "\<lparr>sampleRate = 2, samples = [1 / 2, - (1 / 4)]\<rparr> :: Waveform"
  let ?z = "\<lparr>sampleRate = 2, samples = [0, 0]\<rparr> :: Waveform"
  have p: "peak ?w = 1 / 2"
    by (simp add: peak_def upt2)
  note t = normalize_unit_peak [OF Waveform_ok_quiet]
  from t have "normalize_waveform ?w =
      (if peak ?w \<noteq> 0 \<and> peak ?w \<noteq> 1
       then ?w\<lparr>samples := map (\<lambda>x. x / peak ?w) (samples ?w)\<rparr> else ?w)"
    by blast
  then have n: "normalize_waveform ?w = \<lparr>sampleRate = 2, samples = [1, - (1 / 2)]\<rparr>"
    by (simp add: p)
  from t have "(\<exists>x\<in>set (samples ?w). x \<noteq> 0) \<longrightarrow> peak (normalize_waveform ?w) = 1"
    by blast
  then have k: "peak (normalize_waveform ?w) = 1" by simp
  from normalize_unit_peak [OF Waveform_ok_zeros]
  have "(\<forall>x\<in>set (samples ?z). x = 0) \<longrightarrow> normalize_waveform ?z = ?z"
    by blast
  then have z: "normalize_waveform ?z = ?z" by simp
  show ?thesis
    using Waveform_ok_quiet p n k z by (simp only: simp_thms)
qed


subsection \<open>Smoothing\<close>

lemma smooth_noop: "amount \<le> 0 \<or> amount > 1 \<Longrightarrow> smooth w amount = Inr w"
  by (simp add: smooth_def)

lemma smooth_map:
  assumes "Waveform_ok w" "0 < amount" "amount \<le> 1"
  shows "smooth w amount =
           Inr (w\<lparr>samples := map (smoothed_at w amount) [0..<nat (sampleRate w)]\<rparr>)"
  using assms Waveform_ok_length [OF assms(1)]
  by (simp add: smooth_def typed_set_def Let_def)

lemma Waveform_ok_smooth:
  assumes "Waveform_ok w" "smooth w amount = Inr w'"
  shows "Waveform_ok w'"
proof (cases "0 < amount \<and> amount \<le> 1")
  case True
  then have "w' = w\<lparr>samples := map (smoothed_at w amount) [0..<nat (sampleRate w)]\<rparr>"
    using smooth_map [OF assms(1)] assms(2) by simp
  then show ?thesis using assms(1) by (simp add: Waveform_ok_def)
next
  case False
  then have "amount \<le> 0 \<or> amount > 1" by linarith
  then have "w' = w" using assms(2) smooth_noop [of amount w] by simp
  then show ?thesis using assms(1) by simp
qed

text \<open>The neighbours of index \<open>i\<close> on the circle of \<open>n\<close> samples.\<close>

lemma prev_index:
  assumes "0 < n" "i < nat n"
  shows "nat (js_rem_int (int i - 1 + n) n) = (if i = 0 then nat n - 1 else i - 1)"
proof -
  have nn: "\<not> int i - 1 + n < 0" using assms by linarith
  have "(int i - 1 + n) mod n = (if i = 0 then n - 1 else int i - 1)"
  proof (cases "i = 0")
    case True
    then have "int i - 1 + n = n - 1" by simp
    moreover have "(n - 1) mod n = n - 1"
      using assms(1) by (intro mod_pos_pos_trivial) simp_all
    ultimately show ?thesis using True by simp
  next
    case False
    then have "0 \<le> int i - 1" "int i - 1 < n" using assms by linarith+
    then have "(int i - 1) mod n = int i - 1" by simp
    moreover have "(int i - 1 + n) mod n = (int i - 1) mod n" by simp
    ultimately show ?thesis using False by simp
  qed
  then show ?thesis using nn assms by (auto simp add: js_rem_int_def)
qed

lemma next_index:
  assumes "0 < n" "i < nat n"
  shows "nat (js_rem_int (int i + 1) n) = (if Suc i = nat n then 0 else Suc i)"
proof -
  have nn: "\<not> int i + 1 < 0" by linarith
  have "(int i + 1) mod n = (if Suc i = nat n then 0 else int i + 1)"
  proof (cases "Suc i = nat n")
    case True
    then have "int i + 1 = n" using assms by linarith
    then show ?thesis using True by simp
  next
    case False
    then have "0 \<le> int i + 1" "int i + 1 < n" using assms by linarith+
    then show ?thesis using False by simp
  qed
  then show ?thesis using nn assms by (auto simp add: js_rem_int_def nat_add_distrib)
qed

lemma convex_bound:
  fixes c p n a :: real
  assumes "\<bar>c\<bar> \<le> 1" "\<bar>p\<bar> \<le> 1" "\<bar>n\<bar> \<le> 1" "0 < a" "a \<le> 1"
  shows "\<bar>c * (1 - a) + (p + n) * 0.5 * a\<bar> \<le> 1"
proof -
  have "\<bar>c\<bar> * (1 - a) \<le> 1 * (1 - a)"
    using assms by (intro mult_right_mono) simp_all
  then have 1: "\<bar>c * (1 - a)\<bar> \<le> 1 - a"
    using assms by (simp add: abs_mult)
  have "\<bar>(p + n) * 0.5\<bar> \<le> 1" using assms by (simp add: abs_if split: if_splits)
  then have "\<bar>(p + n) * 0.5\<bar> * a \<le> 1 * a"
    using assms by (intro mult_right_mono) simp_all
  then have 2: "\<bar>(p + n) * 0.5 * a\<bar> \<le> a"
    using assms by (simp add: abs_mult)
  have "\<bar>c * (1 - a) + (p + n) * 0.5 * a\<bar> \<le> \<bar>c * (1 - a)\<bar> + \<bar>(p + n) * 0.5 * a\<bar>"
    by (rule abs_triangle_ineq)
  then show ?thesis using 1 2 by linarith
qed

lemma smoothed_at_circular:
  assumes "Waveform_ok w" "i < nat (sampleRate w)"
  shows "smoothed_at w amount i =
           samples w ! i * (1 - amount)
           + (samples w ! (if i = 0 then nat (sampleRate w) - 1 else i - 1)
              + samples w ! (if Suc i = nat (sampleRate w) then 0 else Suc i)) * 0.5 * amount"
  using prev_index [OF Waveform_ok_pos [OF assms(1)] assms(2)]
        next_index [OF Waveform_ok_pos [OF assms(1)] assms(2)]
  by (simp add: smoothed_at_def Let_def)

lemma smoothed_at_range:
  assumes ok: "Waveform_ok w" and i: "i < nat (sampleRate w)"
    and r: "\<forall>x\<in>set (samples w). - 1 \<le> x \<and> x \<le> 1"
    and a: "0 < amount" "amount \<le> 1"
  shows "\<bar>smoothed_at w amount i\<bar> \<le> 1"
proof -
  let ?n = "nat (sampleRate w)"
  let ?p = "if i = 0 then ?n - 1 else i - 1"
  let ?s = "if Suc i = ?n then 0 else Suc i"
  have len: "length (samples w) = ?n" by (rule Waveform_ok_length [OF ok])
  have b: "\<And>j. j < ?n \<Longrightarrow> \<bar>samples w ! j\<bar> \<le> 1"
  proof -
    fix j assume "j < ?n"
    then have "samples w ! j \<in> set (samples w)" using len by simp
    then show "\<bar>samples w ! j\<bar> \<le> 1" using r by (simp add: abs_le_iff)
  qed
  have "?p < ?n" "?s < ?n" using i by auto
  then have "\<bar>samples w ! ?p\<bar> \<le> 1" "\<bar>samples w ! ?s\<bar> \<le> 1" "\<bar>samples w ! i\<bar> \<le> 1"
    using b i by blast+
  then have "\<bar>samples w ! i * (1 - amount) + (samples w ! ?p + samples w ! ?s) * 0.5 * amount\<bar> \<le> 1"
    using a by (intro convex_bound)
  then show ?thesis by (simp only: smoothed_at_circular [OF ok i])
qed

text \<open>
  Claim C10. \<open>smooth\<close> writes its result without clamping, and still keeps the
  range: on a waveform object whose samples all lie in \<open>[-1, 1]\<close>, for an amount in
  \<open>(0, 1]\<close>, it succeeds, keeps the sample count and the buffer length, and every
  sample of the result lies in \<open>[-1, 1]\<close>.
\<close>

theorem smooth_keeps_range:
  assumes "Waveform_ok w" and "\<forall>x\<in>set (samples w). - 1 \<le> x \<and> x \<le> 1"
    and "0 < amount" and "amount \<le> 1"
  shows "\<exists>w'. smooth w amount = Inr w' \<and> sampleRate w' = sampleRate w
             \<and> length (samples w') = length (samples w)
             \<and> (\<forall>x\<in>set (samples w'). - 1 \<le> x \<and> x \<le> 1)"
proof -
  let ?w' = "w\<lparr>samples := map (smoothed_at w amount) [0..<nat (sampleRate w)]\<rparr>"
  have s: "smooth w amount = Inr ?w'"
    using assms by (intro smooth_map)
  have "\<forall>x\<in>set (samples ?w'). - 1 \<le> x \<and> x \<le> 1"
  proof
    fix x assume "x \<in> set (samples ?w')"
    then obtain i where i: "i < nat (sampleRate w)" "x = smoothed_at w amount i" by auto
    have "\<bar>smoothed_at w amount i\<bar> \<le> 1"
      using assms i(1) by (intro smoothed_at_range)
    then show "- 1 \<le> x \<and> x \<le> 1" using i(2) by (simp add: abs_le_iff)
  qed
  moreover have "length (samples ?w') = length (samples w)"
    using Waveform_ok_length [OF assms(1)] by simp
  ultimately show ?thesis using s by (intro exI [of _ ?w']) simp
qed

lemma Waveform_ok_alternating: "Waveform_ok \<lparr>sampleRate = 2, samples = [1, - 1]\<rparr>"
  by (simp add: Waveform_ok_def isPowerOfTwo_2)

text \<open>Smoothing \<open>[1, -1]\<close> by one half gives \<open>[0, 0]\<close>.\<close>

theorem smooth_keeps_range_witness:
  "Waveform_ok \<lparr>sampleRate = 2, samples = [1, - 1]\<rparr>
   \<and> smooth \<lparr>sampleRate = 2, samples = [1, - 1]\<rparr> (1 / 2) = Inr \<lparr>sampleRate = 2, samples = [0, 0]\<rparr>"
proof -
  have r: "\<forall>x\<in>set (samples \<lparr>sampleRate = 2, samples = [1, - 1]\<rparr>). - 1 \<le> x \<and> x \<le> (1::real)"
    by simp
  have s: "smooth \<lparr>sampleRate = 2, samples = [1, - 1]\<rparr> (1 / 2) = Inr \<lparr>sampleRate = 2, samples = [0, 0]\<rparr>"
    by (simp add: smooth_def typed_set_def smoothed_at_def js_rem_int_def upt2 Let_def)
  show ?thesis
    using Waveform_ok_alternating s smooth_keeps_range [OF Waveform_ok_alternating r, of "1 / 2"] by simp
qed


subsection \<open>applySmoothing: the input is not written\<close>

lemma clone_value: "Waveform_ok w \<Longrightarrow> clone w = Inr w"
  by (simp add: clone_def Waveform_new_def Waveform_ok_def typed_set_def)

lemma clone_obj_fresh:
  assumes "obj_samples obj < length st" "Waveform_ok (deref st obj)"
  shows "clone_obj st obj =
           Inr (\<lparr>obj_sampleRate = obj_sampleRate obj, obj_samples = length st\<rparr>,
                st @ [st ! obj_samples obj])"
  using assms
  by (simp add: clone_obj_def new_obj_def Waveform_new_def Waveform_ok_def deref_def
      typed_set_def nth_append)

lemma circ_prev: "i < n \<Longrightarrow> (if i = 0 then n - 1 else i - 1) = (i + n - 1) mod (n::nat)"
proof (cases "i = 0")
  case True
  assume "i < n"
  then show ?thesis using True by simp
next
  case False
  assume "i < n"
  then have e: "i + n - 1 = (i - 1) + n" and l: "i - 1 < n" using False by simp_all
  have "(i + n - 1) mod n = ((i - 1) + n) mod n" by (simp only: e)
  also have "\<dots> = (i - 1) mod n" by simp
  also have "\<dots> = i - 1" using l by simp
  finally show ?thesis using False by simp
qed

lemma circ_next: "i < n \<Longrightarrow> (if Suc i = n then 0 else Suc i) = (i + 1) mod (n::nat)"
  by auto

lemma smoothed_at_mod:
  assumes "Waveform_ok w" "i < nat (sampleRate w)"
  shows "smoothed_at w amount i =
           samples w ! i * (1 - amount)
           + (samples w ! ((i + nat (sampleRate w) - 1) mod nat (sampleRate w))
              + samples w ! ((i + 1) mod nat (sampleRate w))) / 2 * amount"
  using smoothed_at_circular [OF assms, of amount] circ_prev [OF assms(2)] circ_next [OF assms(2)]
  by simp

text \<open>
  Claim C9. For a waveform object \<open>obj\<close> whose buffer is in the store,
  \<open>applySmoothing\<close> succeeds and returns an object with a buffer of its own, newly
  allocated behind the buffers of the store; every buffer that was in the store,
  the one of \<open>obj\<close> among them, is unchanged, and so is the value of \<open>obj\<close> (its
  samples and its sample count). The value of the returned object is that of
  \<open>clone\<close> with \<open>smooth(amount)\<close> applied: equal to the input when \<open>amount\<close> is
  outside \<open>(0, 1]\<close>, and otherwise, at every index \<open>i\<close>,
  \<open>curr * (1 - amount) + (prev + next) / 2 * amount\<close> with the neighbours taken
  circularly.
\<close>

theorem applySmoothing_fresh_copy:
  assumes "obj_samples obj < length st" and "Waveform_ok (deref st obj)"
  shows "\<exists>smoothed st' c w'.
           applySmoothing st obj amount = Inr (smoothed, st')
         \<and> clone (deref st obj) = Inr c \<and> smooth c amount = Inr w'
         \<and> deref st' smoothed = w'
         \<and> obj_samples smoothed = length st
         \<and> take (length st) st' = st
         \<and> deref st' obj = deref st obj
         \<and> sampleRate w' = sampleRate (deref st obj)
         \<and> (amount \<le> 0 \<or> 1 < amount \<longrightarrow> w' = deref st obj)
         \<and> (0 < amount \<and> amount \<le> 1 \<longrightarrow>
              length (samples w') = nat (obj_sampleRate obj)
              \<and> (\<forall>i < nat (obj_sampleRate obj).
                   samples w' ! i =
                     st ! obj_samples obj ! i * (1 - amount)
                     + (st ! obj_samples obj ! ((i + nat (obj_sampleRate obj) - 1) mod nat (obj_sampleRate obj))
                        + st ! obj_samples obj ! ((i + 1) mod nat (obj_sampleRate obj))) / 2 * amount))"
proof -
  let ?w = "deref st obj"
  let ?c = "\<lparr>obj_sampleRate = obj_sampleRate obj, obj_samples = length st\<rparr>"
  let ?st1 = "st @ [st ! obj_samples obj]"
  have cl: "clone_obj st obj = Inr (?c, ?st1)"
    using assms by (rule clone_obj_fresh)
  have d1: "deref ?st1 ?c = ?w" by (simp add: deref_def)
  obtain w' where w': "smooth ?w amount = Inr w'"
  proof (cases "0 < amount \<and> amount \<le> 1")
    case True
    then show ?thesis using smooth_map [OF assms(2)] that by blast
  next
    case False
    then have "amount \<le> 0 \<or> amount > 1" by linarith
    then show ?thesis using smooth_noop that by blast
  qed
  have ok': "Waveform_ok w'" using assms(2) w' by (rule Waveform_ok_smooth)
  have sr: "sampleRate w' = sampleRate ?w"
  proof (cases "0 < amount \<and> amount \<le> 1")
    case True
    then show ?thesis using smooth_map [OF assms(2), of amount] w' by auto
  next
    case False
    then have "amount \<le> 0 \<or> amount > 1" by linarith
    then show ?thesis using smooth_noop [of amount ?w] w' by simp
  qed
  let ?st2 = "st @ [samples w']"
  have so: "smooth_obj ?st1 ?c amount = Inr ?st2"
    using w' by (simp add: smooth_obj_def d1)
  have ap: "applySmoothing st obj amount = Inr (?c, ?st2)"
    by (simp add: applySmoothing_def cl so)
  have d2: "deref ?st2 ?c = w'"
    using sr by (simp add: deref_def)
  have d3: "deref ?st2 obj = ?w"
    using assms(1) by (simp add: deref_def nth_append)
  have noop: "amount \<le> 0 \<or> 1 < amount \<longrightarrow> w' = ?w"
    using smooth_noop [of amount ?w] w' by auto
  have act: "0 < amount \<and> amount \<le> 1 \<longrightarrow>
              length (samples w') = nat (obj_sampleRate obj)
              \<and> (\<forall>i < nat (obj_sampleRate obj).
                   samples w' ! i =
                     st ! obj_samples obj ! i * (1 - amount)
                     + (st ! obj_samples obj ! ((i + nat (obj_sampleRate obj) - 1) mod nat (obj_sampleRate obj))
                        + st ! obj_samples obj ! ((i + 1) mod nat (obj_sampleRate obj))) / 2 * amount)"
  proof
    assume a: "0 < amount \<and> amount \<le> 1"
    then have e: "samples w' = map (smoothed_at ?w amount) [0..<nat (sampleRate ?w)]"
      using smooth_map [OF assms(2), of amount] w' by auto
    have n: "sampleRate ?w = obj_sampleRate obj" "samples ?w = st ! obj_samples obj"
      by (simp_all add: deref_def)
    show "length (samples w') = nat (obj_sampleRate obj)
              \<and> (\<forall>i < nat (obj_sampleRate obj).
                   samples w' ! i =
                     st ! obj_samples obj ! i * (1 - amount)
                     + (st ! obj_samples obj ! ((i + nat (obj_sampleRate obj) - 1) mod nat (obj_sampleRate obj))
                        + st ! obj_samples obj ! ((i + 1) mod nat (obj_sampleRate obj))) / 2 * amount)"
    proof (intro conjI allI impI)
      show "length (samples w') = nat (obj_sampleRate obj)" using e n by simp
      fix i assume i: "i < nat (obj_sampleRate obj)"
      then have i': "i < nat (sampleRate ?w)" using n by simp
      have "samples w' ! i = smoothed_at ?w amount i" using e i' by simp
      then show "samples w' ! i =
                     st ! obj_samples obj ! i * (1 - amount)
                     + (st ! obj_samples obj ! ((i + nat (obj_sampleRate obj) - 1) mod nat (obj_sampleRate obj))
                        + st ! obj_samples obj ! ((i + 1) mod nat (obj_sampleRate obj))) / 2 * amount"
        using smoothed_at_mod [OF assms(2) i', of amount] n by simp
    qed
  qed
  have "applySmoothing st obj amount = Inr (?c, ?st2)
         \<and> clone ?w = Inr ?w \<and> smooth ?w amount = Inr w'
         \<and> deref ?st2 ?c = w'
         \<and> obj_samples ?c = length st
         \<and> take (length st) ?st2 = st
         \<and> deref ?st2 obj = ?w
         \<and> sampleRate w' = sampleRate ?w"
    using ap clone_value [OF assms(2)] w' d2 d3 sr by simp
  then show ?thesis using noop act by blast
qed

text \<open>A store holding the buffer \<open>[1, -1]\<close>: the smoothed copy \<open>[0, 0]\<close> is a second
  buffer, the first one is as before; with the amount 2 the copy equals the input.\<close>

theorem applySmoothing_fresh_copy_witness:
  "applySmoothing [[1, - 1]] \<lparr>obj_sampleRate = 2, obj_samples = 0\<rparr> (1 / 2)
     = Inr (\<lparr>obj_sampleRate = 2, obj_samples = 1\<rparr>, [[1, - 1], [0, 0]])
   \<and> applySmoothing [[1, - 1]] \<lparr>obj_sampleRate = 2, obj_samples = 0\<rparr> 2
     = Inr (\<lparr>obj_sampleRate = 2, obj_samples = 1\<rparr>, [[1, - 1], [1, - 1]])"
proof -
  have d: "deref [[1, - 1]] \<lparr>obj_sampleRate = 2, obj_samples = 0\<rparr> = \<lparr>sampleRate = 2, samples = [1, - 1]\<rparr>"
    by (simp add: deref_def)
  have a: "obj_samples \<lparr>obj_sampleRate = 2, obj_samples = 0\<rparr> < length [[1, - 1 :: real]]"
    by simp
  have ok: "Waveform_ok (deref [[1, - 1]] \<lparr>obj_sampleRate = 2, obj_samples = 0\<rparr>)"
    by (simp only: d Waveform_ok_alternating)
  have s: "smooth \<lparr>sampleRate = 2, samples = [1, - 1]\<rparr> (1 / 2) = Inr \<lparr>sampleRate = 2, samples = [0, 0]\<rparr>"
    by (simp add: smooth_def typed_set_def smoothed_at_def js_rem_int_def upt2 Let_def)
  have s2: "smooth \<lparr>sampleRate = 2, samples = [1, - 1]\<rparr> 2 = Inr \<lparr>sampleRate = 2, samples = [1, - 1]\<rparr>"
    by (simp add: smooth_def)
  have c: "clone_obj [[1, - 1]] \<lparr>obj_sampleRate = 2, obj_samples = 0\<rparr>
             = Inr (\<lparr>obj_sampleRate = 2, obj_samples = 1\<rparr>, [[1, - 1], [1, - 1]])"
    by (simp add: clone_obj_def new_obj_def Waveform_new_def isPowerOfTwo_2 typed_set_def)
  have m: "smooth_obj [[1, - 1], [1, - 1]] \<lparr>obj_sampleRate = 2, obj_samples = 1\<rparr> (1 / 2)
             = Inr [[1, - 1], [0, 0]]"
    by (simp add: smooth_obj_def deref_def s)
  have m2: "smooth_obj [[1, - 1], [1, - 1]] \<lparr>obj_sampleRate = 2, obj_samples = 1\<rparr> 2
             = Inr [[1, - 1], [1, - 1]]"
    by (simp add: smooth_obj_def deref_def s2)
  have v: "applySmoothing [[1, - 1]] \<lparr>obj_sampleRate = 2, obj_samples = 0\<rparr> (1 / 2)
     = Inr (\<lparr>obj_sampleRate = 2, obj_samples = 1\<rparr>, [[1, - 1], [0, 0]])"
    by (simp only: applySmoothing_def c m sum.case prod.case)
  have v2: "applySmoothing [[1, - 1]] \<lparr>obj_sampleRate = 2, obj_samples = 0\<rparr> 2
     = Inr (\<lparr>obj_sampleRate = 2, obj_samples = 1\<rparr>, [[1, - 1], [1, - 1]])"
    by (simp only: applySmoothing_def c m2 sum.case prod.case)
  from applySmoothing_fresh_copy [OF a ok, of "1 / 2"] applySmoothing_fresh_copy [OF a ok, of 2]
  show ?thesis
    by (simp only: v v2 simp_thms)
qed

section \<open>Properties of the FrequencySpectrum and of the transforms\<close>

lemma fold_add_sum:
  fixes g :: "nat \<Rightarrow> real"
  shows "fold (\<lambda>n acc. acc + g n) [0..<k] a = a + sum g {0..<k}"
  by (induction k) simp_all

lemma dft_real_spec: "dft_real w k = spec_real w k"
  using fold_add_sum [of "\<lambda>n. samples w ! n * cos (- 2 * pi * (real k + 1) * real n / real_of_int (sampleRate w))"
                          "nat (sampleRate w)" 0]
  by (simp add: dft_real_def spec_real_def)

lemma dft_imag_spec: "dft_imag w k = spec_imag w k"
  using fold_add_sum [of "\<lambda>n. samples w ! n * sin (- 2 * pi * (real k + 1) * real n / real_of_int (sampleRate w))"
                          "nat (sampleRate w)" 0]
  by (simp add: dft_imag_def spec_imag_def)

lemma foldE_append:
  "foldE f (xs @ ys) s = (case foldE f xs s of Inl e \<Rightarrow> Inl e | Inr s' \<Rightarrow> foldE f ys s')"
  by (induction xs arbitrary: s) (simp_all split: sum.splits)

lemma atan2_range: "- pi < atan2 y x \<and> atan2 y x \<le> pi"
proof -
  have b: "- (pi / 2) < arctan (y / x)" "arctan (y / x) < pi / 2"
    using arctan_bounded [of "y / x"] by simp_all
  consider "x > 0" | "x < 0" "y \<ge> 0" | "x < 0" "y < 0" | "x = 0" "y > 0" | "x = 0" "y < 0" | "x = 0" "y = 0"
    by linarith
  then show ?thesis
  proof cases
    case 1
    then show ?thesis using b pi_gt_zero by (simp add: atan2_def; linarith)
  next
    case 2
    then have "y / x \<le> 0" by (simp add: divide_nonneg_neg)
    then have "arctan (y / x) \<le> 0" by simp
    then show ?thesis using 2 b pi_gt_zero by (simp add: atan2_def; linarith)
  next
    case 3
    then have "0 < y / x" by (simp add: divide_neg_neg)
    then have "0 < arctan (y / x)" by simp
    then show ?thesis using 3 b pi_gt_zero by (simp add: atan2_def; linarith)
  next
    case 4
    then show ?thesis using pi_gt_zero by (simp add: atan2_def; linarith)
  next
    case 5
    then show ?thesis using pi_gt_zero by (simp add: atan2_def; linarith)
  next
    case 6
    then show ?thesis using pi_gt_zero by (simp add: atan2_def; linarith)
  qed
qed

lemma js_rem_small:
  assumes "\<bar>p\<bar> < b"
  shows "js_rem p b = p"
proof -
  have bpos: "0 < b" using assms by linarith
  have q: "\<bar>p / b\<bar> < 1" using assms bpos by simp
  have "js_trunc (p / b) = 0"
  proof (cases "p / b < 0")
    case True
    then have "- 1 < p / b" "p / b \<le> 0" using q by linarith+
    then have "\<lceil>p / b\<rceil> = 0" by (simp add: ceiling_eq_iff)
    then show ?thesis using True by (simp add: js_trunc_def)
  next
    case False
    then have "0 \<le> p / b" "p / b < 1" using q by linarith+
    then have "\<lfloor>p / b\<rfloor> = 0" by (simp add: floor_eq_iff)
    then show ?thesis using False by (simp add: js_trunc_def)
  qed
  then show ?thesis by (simp add: js_rem_def)
qed

lemma js_rem_bound:
  assumes "0 < b"
  shows "\<bar>js_rem p b\<bar> < b"
proof (cases "p / b < 0")
  case True
  let ?c = "\<lceil>p / b\<rceil>"
  have 1: "p / b \<le> of_int ?c" and 2: "of_int ?c - 1 < p / b" by linarith+
  have "p \<le> of_int ?c * b"
    using 1 pos_divide_le_eq [OF assms, of p "of_int ?c"] by blast
  moreover have "(of_int ?c - 1) * b < p"
    using 2 pos_less_divide_eq [OF assms, of "of_int ?c - 1" p] by blast
  then have "of_int ?c * b - b < p" by (simp add: algebra_simps)
  moreover have "js_rem p b = p - of_int ?c * b"
    using True by (simp add: js_rem_def js_trunc_def mult.commute)
  ultimately show ?thesis using assms by (simp add: abs_less_iff)
next
  case False
  let ?c = "\<lfloor>p / b\<rfloor>"
  have 1: "of_int ?c \<le> p / b" and 2: "p / b < of_int ?c + 1" by linarith+
  have "of_int ?c * b \<le> p"
    using 1 pos_le_divide_eq [OF assms, of "of_int ?c" p] by blast
  moreover have "p < (of_int ?c + 1) * b"
    using 2 pos_divide_less_eq [OF assms, of p "of_int ?c + 1"] by blast
  then have "p < of_int ?c * b + b" by (simp add: algebra_simps)
  moreover have "js_rem p b = p - of_int ?c * b"
    using False by (simp add: js_rem_def js_trunc_def mult.commute)
  ultimately show ?thesis using assms by (simp add: abs_less_iff)
qed

lemma setHarmonic_loop:
  assumes "Spectrum_ok f" "k \<le> nat (harmonicCount f)"
  shows "foldE (\<lambda>j sp. setHarmonic sp (int j) (A j) (P j)) [0..<k] f =
           Inr (f\<lparr>harmonics :=
                    map (\<lambda>j. \<lparr>amplitude = max 0 (min 1 (A j)), phase = js_rem (P j) (pi * 2)\<rparr>) [0..<k]
                    @ drop k (harmonics f)\<rparr>)"
  using assms(2)
proof (induction k)
  case 0
  show ?case by simp
next
  case (Suc k)
  let ?h = "\<lambda>j. \<lparr>amplitude = max 0 (min 1 (A j)), phase = js_rem (P j) (pi * 2)\<rparr>"
  let ?f1 = "f\<lparr>harmonics := map ?h [0..<k] @ drop k (harmonics f)\<rparr>"
  have k: "k < nat (harmonicCount f)" using Suc.prems by simp
  have len: "length (harmonics f) = nat (harmonicCount f)"
    using assms(1) by (simp add: Spectrum_ok_def)
  have ih: "foldE (\<lambda>j sp. setHarmonic sp (int j) (A j) (P j)) [0..<k] f = Inr ?f1"
    using Suc by simp
  have "(map ?h [0..<k] @ drop k (harmonics f))[k := ?h k]
      = map ?h [0..<k] @ (drop k (harmonics f))[0 := ?h k]"
    by (simp add: list_update_append)
  also have "(drop k (harmonics f))[0 := ?h k] = ?h k # drop (Suc k) (harmonics f)"
    using k len by (simp add: Cons_nth_drop_Suc [symmetric])
  finally have upd: "(map ?h [0..<k] @ drop k (harmonics f))[k := ?h k]
      = map ?h [0..<Suc k] @ drop (Suc k) (harmonics f)"
    by simp
  have "setHarmonic ?f1 (int k) (A k) (P k) =
          Inr (?f1\<lparr>harmonics := (harmonics ?f1)[k := ?h k]\<rparr>)"
    using k by (simp add: setHarmonic_def)
  then have "setHarmonic ?f1 (int k) (A k) (P k) =
          Inr (f\<lparr>harmonics := map ?h [0..<Suc k] @ drop (Suc k) (harmonics f)\<rparr>)"
    using upd by simp
  then have step: "foldE (\<lambda>j sp. setHarmonic sp (int j) (A j) (P j)) [k] ?f1 =
          Inr (f\<lparr>harmonics := map ?h [0..<Suc k] @ drop (Suc k) (harmonics f)\<rparr>)"
    by simp
  have "foldE (\<lambda>j sp. setHarmonic sp (int j) (A j) (P j)) ([0..<k] @ [k]) f
      = foldE (\<lambda>j sp. setHarmonic sp (int j) (A j) (P j)) [k] ?f1"
    by (simp only: foldE_append ih sum.case)
  then show ?case using step by simp
qed

lemma Spectrum_ok_new: "Spectrum_ok (FrequencySpectrum_new hc)"
  by (simp add: Spectrum_ok_def FrequencySpectrum_new_def)

text \<open>
  Claim C1. For a waveform object and any harmonic count, \<open>toFrequencyDomain\<close>
  succeeds and returns a spectrum of that many harmonics in which, at every
  harmonic index \<open>k\<close>, the stored amplitude is \<open>2\<cdot>sqrt(real\<^sup>2 + imag\<^sup>2)\<close> limited to
  at most 1 by the clamp of \<open>setHarmonic\<close>, and the stored phase is
  \<open>atan2(imag, real)\<close>, where \<open>real\<close> and \<open>imag\<close> are the sums of the specification.
\<close>

theorem toFrequencyDomain_clamped:
  assumes "Waveform_ok w"
  shows "\<exists>sp. toFrequencyDomain w hc = Inr sp
            \<and> harmonicCount sp = hc \<and> length (harmonics sp) = nat hc
            \<and> (\<forall>k < nat hc.
                  amplitude (harmonics sp ! k) =
                    min 1 (2 * sqrt ((spec_real w k)\<^sup>2 + (spec_imag w k)\<^sup>2))
                  \<and> phase (harmonics sp ! k) = atan2 (spec_imag w k) (spec_real w k))"
proof -
  let ?A = "\<lambda>k. 2 * sqrt (dft_real w k * dft_real w k + dft_imag w k * dft_imag w k)"
  let ?P = "\<lambda>k. atan2 (dft_imag w k) (dft_real w k)"
  let ?h = "\<lambda>j. \<lparr>amplitude = max 0 (min 1 (?A j)), phase = js_rem (?P j) (pi * 2)\<rparr>"
  let ?f = "FrequencySpectrum_new hc"
  let ?sp = "?f\<lparr>harmonics := map ?h [0..<nat hc] @ drop (nat hc) (harmonics ?f)\<rparr>"
  have hcf: "harmonicCount ?f = hc" by (simp add: FrequencySpectrum_new_def)
  have "foldE (\<lambda>j sp. setHarmonic sp (int j) (?A j) (?P j)) [0..<nat hc] ?f = Inr ?sp"
    by (rule setHarmonic_loop [OF Spectrum_ok_new]) (simp add: hcf)
  then have r: "toFrequencyDomain w hc = Inr ?sp"
    by (simp add: toFrequencyDomain_def Let_def)
  have hs: "harmonics ?sp = map ?h [0..<nat hc]"
    by (simp add: FrequencySpectrum_new_def)
  have each: "\<forall>k < nat hc.
                  amplitude (harmonics ?sp ! k) =
                    min 1 (2 * sqrt ((spec_real w k)\<^sup>2 + (spec_imag w k)\<^sup>2))
                  \<and> phase (harmonics ?sp ! k) = atan2 (spec_imag w k) (spec_real w k)"
  proof (intro allI impI)
    fix k assume k: "k < nat hc"
    have hk: "harmonics ?sp ! k = ?h k" using k hs by simp
    have "0 \<le> ?A k" by simp
    then have a: "max 0 (min 1 (?A k)) = min 1 (?A k)" by simp
    have "\<bar>?P k\<bar> < pi * 2"
      using atan2_range [of "dft_imag w k" "dft_real w k"] pi_gt_zero
      by (simp add: abs_less_iff; linarith)
    then have p: "js_rem (?P k) (pi * 2) = ?P k" by (rule js_rem_small)
    show "amplitude (harmonics ?sp ! k) =
                    min 1 (2 * sqrt ((spec_real w k)\<^sup>2 + (spec_imag w k)\<^sup>2))
                  \<and> phase (harmonics ?sp ! k) = atan2 (spec_imag w k) (spec_real w k)"
      unfolding hk using a p
      by (simp add: dft_real_spec dft_imag_spec power2_eq_square)
  qed
  have "harmonicCount ?sp = hc \<and> length (harmonics ?sp) = nat hc"
    using hs hcf by simp
  then show ?thesis using r each by blast
qed

lemma dft_real_alternating: "dft_real \<lparr>sampleRate = 2, samples = [1, - 1]\<rparr> 0 = 1"
  by (simp add: dft_real_def upt2)

lemma dft_imag_alternating: "dft_imag \<lparr>sampleRate = 2, samples = [1, - 1]\<rparr> 0 = 0"
  by (simp add: dft_imag_def upt2)

text \<open>
  The stored amplitude is not always \<open>2\<cdot>sqrt(real\<^sup>2 + imag\<^sup>2)\<close>: for the waveform
  \<open>[1, -1]\<close> that value is 2 at harmonic index 0, and the spectrum holds 1.
\<close>

theorem toFrequencyDomain_amplitude_counterexample:
  "toFrequencyDomain \<lparr>sampleRate = 2, samples = [1, - 1]\<rparr> 1 =
      Inr \<lparr>harmonicCount = 1, harmonics = [\<lparr>amplitude = 1, phase = 0\<rparr>],
           fundamentalFrequency = 440\<rparr>
   \<and> 2 * sqrt ((spec_real \<lparr>sampleRate = 2, samples = [1, - 1]\<rparr> 0)\<^sup>2
               + (spec_imag \<lparr>sampleRate = 2, samples = [1, - 1]\<rparr> 0)\<^sup>2) = 2
   \<and> amplitude (\<lparr>amplitude = 1, phase = 0\<rparr> :: Harmonic) \<noteq> 2"
proof -
  have a: "atan2 0 1 = 0" by (simp add: atan2_def)
  have r: "js_rem 0 (pi * 2) = 0" by (simp add: js_rem_def js_trunc_def)
  have "toFrequencyDomain \<lparr>sampleRate = 2, samples = [1, - 1]\<rparr> 1 =
      Inr \<lparr>harmonicCount = 1, harmonics = [\<lparr>amplitude = 1, phase = 0\<rparr>],
           fundamentalFrequency = 440\<rparr>"
    by (simp add: toFrequencyDomain_def dft_real_alternating dft_imag_alternating a r setHarmonic_def
        FrequencySpectrum_new_def Let_def)
  moreover have "2 * sqrt ((spec_real \<lparr>sampleRate = 2, samples = [1, - 1]\<rparr> 0)\<^sup>2
               + (spec_imag \<lparr>sampleRate = 2, samples = [1, - 1]\<rparr> 0)\<^sup>2) = 2"
    by (simp add: dft_real_spec [symmetric] dft_imag_spec [symmetric] dft_real_alternating dft_imag_alternating)
  ultimately show ?thesis by simp
qed

text \<open>The waveform \<open>[1, -1]\<close>: amplitude 1 and phase 0 at harmonic index 0.\<close>

theorem toFrequencyDomain_clamped_witness:
  "Waveform_ok \<lparr>sampleRate = 2, samples = [1, - 1]\<rparr>
   \<and> (\<exists>sp. toFrequencyDomain \<lparr>sampleRate = 2, samples = [1, - 1]\<rparr> 1 = Inr sp
          \<and> amplitude (harmonics sp ! 0) = 1 \<and> phase (harmonics sp ! 0) = 0)"
proof -
  have a: "atan2 0 1 = 0" by (simp add: atan2_def)
  have re: "spec_real \<lparr>sampleRate = 2, samples = [1, - 1]\<rparr> 0 = 1"
    by (simp add: dft_real_spec [symmetric] dft_real_alternating)
  have im: "spec_imag \<lparr>sampleRate = 2, samples = [1, - 1]\<rparr> 0 = 0"
    by (simp add: dft_imag_spec [symmetric] dft_imag_alternating)
  show ?thesis
    using Waveform_ok_alternating toFrequencyDomain_clamped [OF Waveform_ok_alternating, of 1] by (auto simp add: re im a)
qed

subsection \<open>Synthesis\<close>

lemma setSample_loop:
  assumes "length (samples w) = nat (sampleRate w)" "k \<le> nat (sampleRate w)"
  shows "foldE (\<lambda>s w. setSample w (int s) (V s)) [0..<k] w =
           Inr (w\<lparr>samples := map (\<lambda>s. max (- 1) (min 1 (V s))) [0..<k] @ drop k (samples w)\<rparr>)"
  using assms(2)
proof (induction k)
  case 0
  show ?case by simp
next
  case (Suc k)
  let ?c = "\<lambda>s. max (- 1) (min 1 (V s))"
  let ?w1 = "w\<lparr>samples := map ?c [0..<k] @ drop k (samples w)\<rparr>"
  have k: "k < nat (sampleRate w)" using Suc.prems by simp
  have ih: "foldE (\<lambda>s w. setSample w (int s) (V s)) [0..<k] w = Inr ?w1"
    using Suc by simp
  have "(map ?c [0..<k] @ drop k (samples w))[k := ?c k]
      = map ?c [0..<k] @ (drop k (samples w))[0 := ?c k]"
    by (simp add: list_update_append)
  also have "(drop k (samples w))[0 := ?c k] = ?c k # drop (Suc k) (samples w)"
    using k assms(1) by (simp add: Cons_nth_drop_Suc [symmetric])
  finally have upd: "(map ?c [0..<k] @ drop k (samples w))[k := ?c k]
      = map ?c [0..<Suc k] @ drop (Suc k) (samples w)"
    by simp
  have "setSample ?w1 (int k) (V k) = Inr (?w1\<lparr>samples := (samples ?w1)[k := ?c k]\<rparr>)"
    using k by (simp add: setSample_def)
  then have "setSample ?w1 (int k) (V k) =
          Inr (w\<lparr>samples := map ?c [0..<Suc k] @ drop (Suc k) (samples w)\<rparr>)"
    using upd by simp
  then have step: "foldE (\<lambda>s w. setSample w (int s) (V s)) [k] ?w1 =
          Inr (w\<lparr>samples := map ?c [0..<Suc k] @ drop (Suc k) (samples w)\<rparr>)"
    by simp
  have "foldE (\<lambda>s w. setSample w (int s) (V s)) ([0..<k] @ [k]) w
      = foldE (\<lambda>s w. setSample w (int s) (V s)) [k] ?w1"
    by (simp only: foldE_append ih sum.case)
  then show ?case using step by simp
qed

lemma toTimeDomain_clamps:
  assumes "isPowerOfTwo sr"
  shows "toTimeDomain sp sr =
           Inr (normalize_waveform
                  \<lparr>sampleRate = sr,
                   samples = map (\<lambda>s. max (- 1) (min 1 (harmonicSum sp sr s))) [0..<nat sr]\<rparr>)"
proof -
  let ?w0 = "\<lparr>sampleRate = sr, samples = replicate (nat sr) 0\<rparr>"
  have n: "Waveform_new sr = Inr ?w0" using assms by (simp add: Waveform_new_def)
  have "foldE (\<lambda>s w. setSample w (int s) (harmonicSum sp sr s)) [0..<nat sr] ?w0 =
          Inr (?w0\<lparr>samples := map (\<lambda>s. max (- 1) (min 1 (harmonicSum sp sr s))) [0..<nat sr]
                                 @ drop (nat sr) (samples ?w0)\<rparr>)"
    by (rule setSample_loop) simp_all
  then show ?thesis by (simp add: toTimeDomain_def n)
qed

lemma toTimeDomain_invalid: "\<not> isPowerOfTwo sr \<Longrightarrow> toTimeDomain sp sr = Inl InvalidLength"
  by (simp add: toTimeDomain_def Waveform_new_def)

lemma harmonicSum_example_0:
  "harmonicSum \<lparr>harmonicCount = 2,
                harmonics = [\<lparr>amplitude = 1, phase = pi / 2\<rparr>, \<lparr>amplitude = 1 / 2, phase = pi / 2\<rparr>],
                fundamentalFrequency = 440\<rparr> 2 0 = 3 / 2"
  by (simp add: harmonicSum_def upt2 Let_def)

lemma harmonicSum_example_1:
  "harmonicSum \<lparr>harmonicCount = 2,
                harmonics = [\<lparr>amplitude = 1, phase = pi / 2\<rparr>, \<lparr>amplitude = 1 / 2, phase = pi / 2\<rparr>],
                fundamentalFrequency = 440\<rparr> 2 (Suc 0) = - (1 / 2)"
proof -
  have "3 * pi / 2 = 3 / 2 * pi" by simp
  then have s3: "sin (3 * pi / 2) = - 1" by (simp only: sin_3over2_pi)
  have "5 * pi / 2 = pi / 2 + 2 * pi" by simp
  then have s5: "sin (5 * pi / 2) = 1" by (simp only: sin_periodic sin_pi_half)
  show ?thesis
    by (simp add: harmonicSum_def upt2 Let_def s3 s5)
qed

text \<open>
  Claim C2. \<open>toTimeDomain\<close> stores every sum with \<open>setSample\<close>, which clamps it,
  and normalizes afterwards. For the two harmonics \<open>(1, \<pi>/2)\<close> and \<open>(1/2, \<pi>/2)\<close> and
  two samples the raw sums are \<open>[3/2, -1/2]\<close>; the result is \<open>[1, -1/2]\<close>, whereas
  the normalized raw sums are \<open>[1, -1/3]\<close>.
\<close>

theorem toTimeDomain_clips_before_normalizing:
  "toTimeDomain \<lparr>harmonicCount = 2,
                 harmonics = [\<lparr>amplitude = 1, phase = pi / 2\<rparr>, \<lparr>amplitude = 1 / 2, phase = pi / 2\<rparr>],
                 fundamentalFrequency = 440\<rparr> 2
     = Inr \<lparr>sampleRate = 2, samples = [1, - (1 / 2)]\<rparr>
   \<and> rawSynthesis \<lparr>harmonicCount = 2,
                 harmonics = [\<lparr>amplitude = 1, phase = pi / 2\<rparr>, \<lparr>amplitude = 1 / 2, phase = pi / 2\<rparr>],
                 fundamentalFrequency = 440\<rparr> 2
     = \<lparr>sampleRate = 2, samples = [3 / 2, - (1 / 2)]\<rparr>
   \<and> spec_toTimeDomain \<lparr>harmonicCount = 2,
                 harmonics = [\<lparr>amplitude = 1, phase = pi / 2\<rparr>, \<lparr>amplitude = 1 / 2, phase = pi / 2\<rparr>],
                 fundamentalFrequency = 440\<rparr> 2
     = \<lparr>sampleRate = 2, samples = [1, - (1 / 3)]\<rparr>"
proof -
  let ?sp = "\<lparr>harmonicCount = 2,
                 harmonics = [\<lparr>amplitude = 1, phase = pi / 2\<rparr>, \<lparr>amplitude = 1 / 2, phase = pi / 2\<rparr>],
                 fundamentalFrequency = 440\<rparr>"
  have raw: "rawSynthesis ?sp 2 = \<lparr>sampleRate = 2, samples = [3 / 2, - (1 / 2)]\<rparr>"
    by (simp add: rawSynthesis_def upt2 harmonicSum_example_0 harmonicSum_example_1)
  have n1: "normalize_waveform \<lparr>sampleRate = 2, samples = [1, - (1 / 2)]\<rparr>
              = \<lparr>sampleRate = 2, samples = [1, - (1 / 2)]\<rparr>"
    by (simp add: normalize_waveform_def peak_def upt2)
  have n2: "normalize_waveform \<lparr>sampleRate = 2, samples = [3 / 2, - (1 / 2)]\<rparr>
              = \<lparr>sampleRate = 2, samples = [1, - (1 / 3)]\<rparr>"
    by (simp add: normalize_waveform_def peak_def upt2 Let_def)
  have "toTimeDomain ?sp 2 =
          Inr (normalize_waveform \<lparr>sampleRate = 2, samples = [1, - (1 / 2)]\<rparr>)"
    by (simp add: toTimeDomain_clamps [OF isPowerOfTwo_2] upt2 harmonicSum_example_0 harmonicSum_example_1)
  then have t: "toTimeDomain ?sp 2 = Inr \<lparr>sampleRate = 2, samples = [1, - (1 / 2)]\<rparr>"
    by (simp only: n1)
  have s: "spec_toTimeDomain ?sp 2 = \<lparr>sampleRate = 2, samples = [1, - (1 / 3)]\<rparr>"
    by (simp only: spec_toTimeDomain_def raw n2)
  show ?thesis using t raw s by (simp only: simp_thms)
qed

subsection \<open>Stored phases\<close>

lemma js_rem_minus_one: "js_rem (- 1) (pi * 2) = - 1"
proof -
  have "pi * 2 > 1" using pi_ge_two by linarith
  then have "- 1 < - 1 / (pi * 2)" "- 1 / (pi * 2) \<le> 0" by (simp_all add: field_simps)
  then have "\<lceil>- 1 / (pi * 2)\<rceil> = 0" by (simp add: ceiling_eq_iff)
  moreover have "- 1 / (pi * 2) < 0" using pi_gt_zero by simp
  ultimately show ?thesis by (simp add: js_rem_def js_trunc_def)
qed

lemma setHarmonic_ranges:
  assumes "setHarmonic f i amp ph = Inr f'" "Spectrum_ok f"
  shows "0 \<le> amplitude (harmonics f' ! nat i) \<and> amplitude (harmonics f' ! nat i) \<le> 1
       \<and> \<bar>phase (harmonics f' ! nat i)\<bar> < 2 * pi
       \<and> (0 \<le> ph \<longrightarrow> 0 \<le> phase (harmonics f' ! nat i))"
proof -
  have i: "0 \<le> i" "i < harmonicCount f"
    using assms(1) by (auto simp add: setHarmonic_def split: if_splits)
  then have l: "nat i < length (harmonics f)"
    using assms(2) by (simp add: Spectrum_ok_def)
  have f': "harmonics f' ! nat i = \<lparr>amplitude = max 0 (min 1 amp), phase = js_rem ph (pi * 2)\<rparr>"
    using assms(1) i l by (auto simp add: setHarmonic_def split: if_splits)
  have b: "\<bar>js_rem ph (pi * 2)\<bar> < pi * 2"
    by (rule js_rem_bound) simp
  have nn: "0 \<le> ph \<longrightarrow> 0 \<le> js_rem ph (pi * 2)"
  proof
    assume p: "0 \<le> ph"
    then have "\<not> ph / (pi * 2) < 0" by (simp add: not_less)
    then have "js_rem ph (pi * 2) = ph - pi * 2 * of_int \<lfloor>ph / (pi * 2)\<rfloor>"
      by (simp add: js_rem_def js_trunc_def)
    moreover have "of_int \<lfloor>ph / (pi * 2)\<rfloor> \<le> ph / (pi * 2)" by linarith
    then have "of_int \<lfloor>ph / (pi * 2)\<rfloor> * (pi * 2) \<le> ph"
      using pos_le_divide_eq [of "pi * 2" "of_int \<lfloor>ph / (pi * 2)\<rfloor>" ph] by simp
    ultimately show "0 \<le> js_rem ph (pi * 2)" by (simp add: mult.commute)
  qed
  show ?thesis unfolding f' using b nn by (simp add: mult.commute)
qed

lemma upt4: "[0..<4] = [0, Suc 0, 2, 3]"
  by (simp add: upt_rec numeral_eq_Suc)

lemma dft_real_sine4: "dft_real \<lparr>sampleRate = 4, samples = [0, 1, 0, - 1]\<rparr> 0 = 0"
proof -
  have "pi * 3 / 2 = 3 / 2 * pi" by simp
  then have c3: "cos (pi * 3 / 2) = 0" by (simp only: cos_3over2_pi)
  show ?thesis by (simp add: dft_real_def upt4 c3)
qed

lemma dft_imag_sine4: "dft_imag \<lparr>sampleRate = 4, samples = [0, 1, 0, - 1]\<rparr> 0 = - (1 / 2)"
proof -
  have "pi * 3 / 2 = 3 / 2 * pi" by simp
  then have s3: "sin (pi * 3 / 2) = - 1" by (simp only: sin_3over2_pi)
  show ?thesis by (simp add: dft_imag_def upt4 s3)
qed

lemma toFrequencyDomain_sine4:
  "toFrequencyDomain \<lparr>sampleRate = 4, samples = [0, 1, 0, - 1]\<rparr> 1 =
     Inr \<lparr>harmonicCount = 1, harmonics = [\<lparr>amplitude = 1, phase = - (pi / 2)\<rparr>],
          fundamentalFrequency = 440\<rparr>"
proof -
  have a: "atan2 (- (1 / 2)) 0 = - (pi / 2)" by (simp add: atan2_def)
  have "\<bar>- (pi / 2)\<bar> < pi * 2" using pi_gt_zero by (simp add: abs_if)
  then have r: "js_rem (- (pi / 2)) (pi * 2) = - (pi / 2)" by (rule js_rem_small)
  have q: "2 * sqrt (0 * 0 + - (1 / 2) * - (1 / 2)) = (1::real)"
  proof -
    have "sqrt (1 / 4) = 1 / 2" by (simp add: real_sqrt_divide)
    then show ?thesis by simp
  qed
  show ?thesis
    by (simp add: toFrequencyDomain_def dft_real_sine4 dft_imag_sine4 a r setHarmonic_def
        FrequencySpectrum_new_def Let_def)
       (use q in simp)
qed

text \<open>
  Claim C8. The remainder \<open>phase % (2\<pi>)\<close> keeps the sign of the phase, so a negative
  phase is stored as it is: \<open>setHarmonic(0, 1/2, -1)\<close> stores the phase \<open>-1\<close>, and
  the spectrum that \<open>toFrequencyDomain\<close> returns for the four-sample sine
  \<open>[0, 1, 0, -1]\<close> holds the phase \<open>-\<pi>/2\<close>.
\<close>

theorem setHarmonic_negative_phase:
  "setHarmonic (FrequencySpectrum_new 1) 0 (1 / 2) (- 1) =
     Inr \<lparr>harmonicCount = 1, harmonics = [\<lparr>amplitude = 1 / 2, phase = - 1\<rparr>],
          fundamentalFrequency = 440\<rparr>
   \<and> toFrequencyDomain \<lparr>sampleRate = 4, samples = [0, 1, 0, - 1]\<rparr> 1 =
     Inr \<lparr>harmonicCount = 1, harmonics = [\<lparr>amplitude = 1, phase = - (pi / 2)\<rparr>],
          fundamentalFrequency = 440\<rparr>
   \<and> - (pi / 2) < 0"
  using toFrequencyDomain_sine4 pi_gt_zero
  by (simp add: setHarmonic_def FrequencySpectrum_new_def js_rem_minus_one)

end
